theory Spec2Isabelle
  imports Complex_Main
begin

section \<open>Data model\<close>

text \<open>
  The puzzle engine lives in the application component: \<open>toggleCellAndNeighbors\<close>,
  \<open>createSolvableBoard\<close> and the click handler \<open>handleCellClick\<close>.
  A cell is the object \<open>{ isOn: boolean }\<close>, a board is an array of arrays of cells.
  JavaScript numbers that hold coordinates, sizes and counters are modelled as
  integers. A number returned by \<open>Math.random()\<close> is a double in \<open>[0, 1)\<close>, kept as
  its mantissa and binary exponent, and its product with the board size is rounded as
  IEEE 754 rounds it. The products of the size with \<open>1.5\<close> and \<open>2.5\<close> are exact
  in doubles for every size below \<open>2\<^sup>5\<^sup>0\<close> and are written with real numbers.
\<close>

record CellState =
  isOn :: bool

type_synonym board = "CellState list list"

datatype Difficulty = Easy | Medium | Hard

text \<open>
  A run-time failure of the JavaScript code is a value: reading a property of
  \<open>undefined\<close> is a \<open>TypeError\<close>, \<open>Array(n)\<close> with a negative length is a
  \<open>RangeError\<close>.
\<close>

datatype error = TypeError | RangeError

section \<open>The move primitive\<close>

text \<open>
  The inner closure \<open>toggle\<close>: inside the guard the cell \<open>newBoard[r][c]\<close> is
  negated in place. When the row or the cell does not exist (the array is shorter than
  \<open>boardSize\<close> says) the property access throws.
\<close>

definition toggle :: "int \<Rightarrow> int \<Rightarrow> int \<Rightarrow> board \<Rightarrow> error + board" where
  "toggle boardSize r c newBoard =
     (if r \<ge> 0 \<and> r < boardSize \<and> c \<ge> 0 \<and> c < boardSize then
        (if nat r < length newBoard \<and> nat c < length (newBoard ! nat r) then
           Inr (newBoard[nat r := (newBoard ! nat r)
                  [nat c := (newBoard ! nat r ! nat c)
                     \<lparr>isOn := \<not> isOn (newBoard ! nat r ! nat c)\<rparr>]])
         else Inl TypeError)
      else Inr newBoard)"

text \<open>Sequencing of statements that may throw.\<close>

definition andThen :: "error + 'a \<Rightarrow> ('a \<Rightarrow> error + 'b) \<Rightarrow> error + 'b" where
  "andThen x f = (case x of Inl e \<Rightarrow> Inl e | Inr v \<Rightarrow> f v)"

text \<open>
  \<open>toggleCellAndNeighbors(row, col, currentBoard, boardSize)\<close>: the deep copy is the
  identity on values; then the five toggles run in the order of the source.
\<close>

definition toggleCellAndNeighbors :: "int \<Rightarrow> int \<Rightarrow> board \<Rightarrow> int \<Rightarrow> error + board" where
  "toggleCellAndNeighbors row col currentBoard boardSize =
     andThen (toggle boardSize row col currentBoard) (\<lambda>b1.
     andThen (toggle boardSize (row - 1) col b1) (\<lambda>b2.
     andThen (toggle boardSize (row + 1) col b2) (\<lambda>b3.
     andThen (toggle boardSize row (col - 1) b3) (\<lambda>b4.
     toggle boardSize row (col + 1) b4))))"


section \<open>The puzzle generator\<close>

text \<open>
  \<open>Array(boardSize).fill(null).map(() => Array(boardSize).fill(null).map(() => ({ isOn: false })))\<close>.
  \<open>Array(n)\<close> throws a \<open>RangeError\<close> for a negative \<open>n\<close>.
\<close>

definition allOffBoard :: "int \<Rightarrow> error + board" where
  "allOffBoard boardSize =
     (if boardSize < 0 then Inl RangeError
      else Inr (replicate (nat boardSize) (replicate (nat boardSize) \<lparr>isOn = False\<rparr>)))"

text \<open>
  The closure \<open>scrambleToggle(r, c, b)\<close> of the generator: a second copy of the move
  primitive, with the same inner \<open>toggle\<close> and \<open>boardSize\<close> taken from the enclosing call.
\<close>

definition scrambleToggle :: "int \<Rightarrow> int \<Rightarrow> int \<Rightarrow> board \<Rightarrow> error + board" where
  "scrambleToggle boardSize r c b =
     andThen (toggle boardSize r c b) (\<lambda>b1.
     andThen (toggle boardSize (r - 1) c b1) (\<lambda>b2.
     andThen (toggle boardSize (r + 1) c b2) (\<lambda>b3.
     andThen (toggle boardSize r (c - 1) b3) (\<lambda>b4.
     toggle boardSize r (c + 1) b4))))"

text \<open>The \<open>switch\<close> on the difficulty; \<open>Math.floor\<close> is the floor of the real product.\<close>

definition scrambleMovesCount :: "int \<Rightarrow> Difficulty \<Rightarrow> int" where
  "scrambleMovesCount boardSize difficulty =
     (case difficulty of
        Easy \<Rightarrow> \<lfloor>real_of_int boardSize * 1.5\<rfloor>
      | Hard \<Rightarrow> boardSize * boardSize
      | Medium \<Rightarrow> \<lfloor>real_of_int boardSize * 2.5\<rfloor>)"

text \<open>
  A double in \<open>[0, 1)\<close> is \<open>mant / 2 ^ expo\<close> with a mantissa of at most 53 bits and an
  exponent of at most 1074: zero, the subnormal and the normal doubles below one are all
  of this form, and every such pair is a double. This is what \<open>Math.random()\<close> may
  return.
\<close>

record UnitDouble =
  mant :: nat
  expo :: nat

definition isUnitDouble :: "UnitDouble \<Rightarrow> bool" where
  "isUnitDouble u \<longleftrightarrow> mant u < 2 ^ 53 \<and> mant u < 2 ^ expo u \<and> expo u \<le> 1074"

text \<open>
  The random source is injected: \<open>rnd k\<close> is the value of the \<open>k\<close>-th call of
  \<open>Math.random()\<close>, and the number of calls made so far is threaded through the loop.
  \<open>goodRandom\<close> is the contract of \<open>Math.random\<close>: a double in \<open>[0, 1)\<close>.
\<close>

type_synonym random = "nat \<Rightarrow> UnitDouble"

definition goodRandom :: "random \<Rightarrow> bool" where
  "goodRandom rnd \<longleftrightarrow> (\<forall>k. isUnitDouble (rnd k))"

text \<open>The number of binary digits of a natural number.\<close>

fun bitLength :: "nat \<Rightarrow> nat" where
  "bitLength p = (if p = 0 then 0 else Suc (bitLength (p div 2)))"

declare bitLength.simps [simp del]

text \<open>
  The rounding of a double multiplication, on the numerator of the exact product: a
  numerator of more than 53 bits is rounded to 53 significant bits, to the nearest such
  number, a tie going to the even one. A product of a double below one and an integer
  that needs rounding is a normal double, so no other case of IEEE 754 arises.
\<close>

definition roundNat53 :: "nat \<Rightarrow> nat" where
  "roundNat53 p =
     (if p < 2 ^ 53 then p
      else
        let s = bitLength p - 53;
            q = p div 2 ^ s;
            r = p mod 2 ^ s
        in (if 2 * r > 2 ^ s \<or> (2 * r = 2 ^ s \<and> odd q) then q + 1 else q) * 2 ^ s)"

text \<open>
  \<open>Math.floor(Math.random() * boardSize)\<close>, for a size that a double holds exactly
  (every integer below \<open>2\<^sup>5\<^sup>3\<close> is one): the exact product is
  \<open>mant * boardSize / 2 ^ expo\<close>, the multiplication rounds its numerator, a negative
  one by its absolute value, and the floor is the integer quotient, which rounds down.
\<close>

definition randIndex :: "UnitDouble \<Rightarrow> int \<Rightarrow> int" where
  "randIndex u boardSize =
     (if boardSize \<ge> 0
      then int (roundNat53 (mant u * nat boardSize))
      else - int (roundNat53 (mant u * nat (- boardSize)))) div 2 ^ expo u"

text \<open>
  The \<open>for\<close> loop of the generator, by the number of iterations that remain. Each
  iteration draws the row, then the column, and replaces the board.
\<close>

fun scrambleLoop :: "int \<Rightarrow> random \<Rightarrow> nat \<Rightarrow> nat \<Rightarrow> board \<Rightarrow> error + board" where
  "scrambleLoop boardSize rnd k 0 boardState = Inr boardState"
| "scrambleLoop boardSize rnd k (Suc m) boardState =
     (let randRow = randIndex (rnd k) boardSize;
          randCol = randIndex (rnd (k + 1)) boardSize
      in andThen (scrambleToggle boardSize randRow randCol boardState)
           (scrambleLoop boardSize rnd (k + 2) m))"

text \<open>\<open>boardState.flat().every(cell => !cell.isOn)\<close>.\<close>

definition allCellsOff :: "board \<Rightarrow> bool" where
  "allCellsOff b = list_all (\<lambda>cell. \<not> isOn cell) (concat b)"

text \<open>One pass through the body of \<open>createSolvableBoard\<close>, up to the test for a retry.\<close>

definition scrambleAttempt :: "random \<Rightarrow> nat \<Rightarrow> int \<Rightarrow> Difficulty \<Rightarrow> error + board" where
  "scrambleAttempt rnd k boardSize difficulty =
     andThen (allOffBoard boardSize)
       (scrambleLoop boardSize rnd k (nat (scrambleMovesCount boardSize difficulty)))"

text \<open>
  \<open>createSolvableBoard(boardSize, difficulty)\<close>. The function calls itself when the
  scramble cancelled out, and nothing in the code bounds the number of retries, so the
  model takes the depth of recursion that is available as fuel: \<open>None\<close> means that the
  call has not returned within that depth. A retry goes on reading the random source
  where the failed attempt stopped, two draws for each iteration.
\<close>

fun createSolvableBoard ::
  "nat \<Rightarrow> random \<Rightarrow> nat \<Rightarrow> int \<Rightarrow> Difficulty \<Rightarrow> (error + board) option" where
  "createSolvableBoard 0 rnd k boardSize difficulty = None"
| "createSolvableBoard (Suc fuel) rnd k boardSize difficulty =
     (case scrambleAttempt rnd k boardSize difficulty of
        Inl e \<Rightarrow> Some (Inl e)
      | Inr boardState \<Rightarrow>
          if allCellsOff boardState
          then createSolvableBoard fuel rnd
                 (k + 2 * nat (scrambleMovesCount boardSize difficulty)) boardSize difficulty
          else Some (Inr boardState))"

section \<open>The game state and the click handler\<close>

text \<open>
  The state of the application component that the engine reads and writes, with the
  three values that decide whether \<open>playSound\<close> does anything: \<open>audioCtx\<close> says whether
  \<open>initAudio()\<close> yields an audio context (it is \<open>null\<close> where Web Audio is missing).
  The \<open>key\<close> of \<open>lastClick\<close> is a time stamp and is left out.
\<close>

record GameSession =
  board :: board
  boardSize :: int
  difficulty :: Difficulty
  moves :: int
  hasWon :: bool
  lastClick :: "(int \<times> int) option"
  audioCtx :: bool
  soundEnabled :: bool
  interactiveSound :: bool

text \<open>Reading \<open>b[r][c].isOn\<close>: a row or a cell that does not exist makes it throw.\<close>

definition readIsOn :: "board \<Rightarrow> int \<Rightarrow> int \<Rightarrow> error + bool" where
  "readIsOn b r c =
     (if 0 \<le> r \<and> nat r < length b \<and> 0 \<le> c \<and> nat c < length (b ! nat r)
      then Inr (isOn (b ! nat r ! nat c)) else Inl TypeError)"

text \<open>One line \<open>if (guard && b[r][c].isOn) count++;\<close> of \<open>getActiveNeighbors\<close>.\<close>

definition countIfOn :: "bool \<Rightarrow> board \<Rightarrow> int \<Rightarrow> int \<Rightarrow> nat \<Rightarrow> error + nat" where
  "countIfOn guard b r c count =
     (if guard then andThen (readIsOn b r c) (\<lambda>on. Inr (if on then count + 1 else count))
      else Inr count)"

definition getActiveNeighbors :: "int \<Rightarrow> int \<Rightarrow> board \<Rightarrow> int \<Rightarrow> error + nat" where
  "getActiveNeighbors r c b size_n =
     andThen (countIfOn (r > 0) b (r - 1) c 0) (\<lambda>n1.
     andThen (countIfOn (r < size_n - 1) b (r + 1) c n1) (\<lambda>n2.
     andThen (countIfOn (c > 0) b r (c - 1) n2) (\<lambda>n3.
     countIfOn (c < size_n - 1) b r (c + 1) n3)))"

text \<open>
  \<open>playSound('click', audioCtx, {board, row, col, boardSize, soundSettings})\<close>, as far as
  the game state can observe it: it returns at once without a context or with the sound
  switched off; in interactive mode it reads the neighbours of the clicked cell, which
  throws when a read leaves the board. The calls into the Web Audio interface belong
  to the browser and are taken to return.
\<close>

definition playSoundClick :: "bool \<Rightarrow> bool \<Rightarrow> bool \<Rightarrow> board \<Rightarrow> int \<Rightarrow> int \<Rightarrow> int \<Rightarrow> error + unit" where
  "playSoundClick ctx enabled interactive b row col size_n =
     (if \<not> ctx \<or> \<not> enabled then Inr ()
      else if interactive then andThen (getActiveNeighbors row col b size_n) (\<lambda>_. Inr ())
      else Inr ())"

text \<open>
  \<open>handleCellClick(row, col)\<close>: the state after the handler has run, or the exception
  that left it (then no setter has run and the state is the old one).
\<close>

definition handleCellClick :: "GameSession \<Rightarrow> int \<Rightarrow> int \<Rightarrow> error + GameSession" where
  "handleCellClick s row col =
     (if hasWon s then Inr s
      else
        andThen (toggleCellAndNeighbors row col (board s) (boardSize s)) (\<lambda>newBoard.
        andThen (playSoundClick (audioCtx s) (soundEnabled s) (interactiveSound s)
                   newBoard row col (boardSize s)) (\<lambda>_.
        let isWinningState = allCellsOff newBoard in
        Inr (s\<lparr>moves := moves s + 1,
               lastClick := Some (row, col),
               board := newBoard,
               hasWon := (if isWinningState then True else hasWon s)\<rparr>))))"

section \<open>Vocabulary for stating properties\<close>


text \<open>A board of size \<open>n\<close>: \<open>n\<close> rows of \<open>n\<close> cells each.\<close>

definition wf_board :: "int \<Rightarrow> board \<Rightarrow> bool" where
  "wf_board n b \<longleftrightarrow> length b = nat n \<and> list_all (\<lambda>row. length row = nat n) b"

definition inGrid :: "int \<Rightarrow> int \<Rightarrow> int \<Rightarrow> bool" where
  "inGrid n i j \<longleftrightarrow> 0 \<le> i \<and> i < n \<and> 0 \<le> j \<and> j < n"

definition cellOn :: "board \<Rightarrow> int \<Rightarrow> int \<Rightarrow> bool" where
  "cellOn b i j = isOn (b ! nat i ! nat j)"

text \<open>The plus pattern around a target: the target and its four orthogonal neighbours.\<close>

definition inPlus :: "int \<Rightarrow> int \<Rightarrow> int \<Rightarrow> int \<Rightarrow> bool" where
  "inPlus row col i j \<longleftrightarrow>
     (i = row \<and> j = col) \<or> (i = row - 1 \<and> j = col) \<or> (i = row + 1 \<and> j = col) \<or>
     (i = row \<and> j = col - 1) \<or> (i = row \<and> j = col + 1)"


text \<open>A finite sequence of applications of the move primitive, left to right.\<close>

fun applyMoves :: "int \<Rightarrow> (int \<times> int) list \<Rightarrow> board \<Rightarrow> error + board" where
  "applyMoves n [] b = Inr b"
| "applyMoves n ((r, c) # ms) b =
     andThen (toggleCellAndNeighbors r c b n) (applyMoves n ms)"

text \<open>The coordinates that the scramble loop draws, in order.\<close>

fun drawnMoves :: "int \<Rightarrow> random \<Rightarrow> nat \<Rightarrow> nat \<Rightarrow> (int \<times> int) list" where
  "drawnMoves n rnd k 0 = []"
| "drawnMoves n rnd k (Suc m) =
     (randIndex (rnd k) n, randIndex (rnd (k + 1)) n) # drawnMoves n rnd (k + 2) m"

text \<open>The five cells of the plus pattern, as the source lists them.\<close>

definition plusCells :: "int \<Rightarrow> int \<Rightarrow> (int \<times> int) list" where
  "plusCells row col = [(row, col), (row - 1, col), (row + 1, col), (row, col - 1), (row, col + 1)]"

text \<open>The cells of the grid in which two boards differ.\<close>

definition changedCells :: "int \<Rightarrow> board \<Rightarrow> board \<Rightarrow> (int \<times> int) list" where
  "changedCells n b b' =
     filter (\<lambda>(i, j). cellOn b' i j \<noteq> cellOn b i j) (List.product [0..n - 1] [0..n - 1])"

definition isCorner :: "int \<Rightarrow> int \<Rightarrow> int \<Rightarrow> bool" where
  "isCorner n r c \<longleftrightarrow> (r = 0 \<or> r = n - 1) \<and> (c = 0 \<or> c = n - 1)"

definition isEdge :: "int \<Rightarrow> int \<Rightarrow> int \<Rightarrow> bool" where
  "isEdge n r c \<longleftrightarrow> inGrid n r c \<and> \<not> isCorner n r c \<and> (r = 0 \<or> r = n - 1 \<or> c = 0 \<or> c = n - 1)"

definition isInterior :: "int \<Rightarrow> int \<Rightarrow> int \<Rightarrow> bool" where
  "isInterior n r c \<longleftrightarrow> 0 < r \<and> r < n - 1 \<and> 0 < c \<and> c < n - 1"

text \<open>A board of size 3 used as a concrete input.\<close>

definition demoBoard :: board where
  "demoBoard =
     [[\<lparr>isOn = False\<rparr>, \<lparr>isOn = True\<rparr>, \<lparr>isOn = False\<rparr>],
      [\<lparr>isOn = True\<rparr>, \<lparr>isOn = True\<rparr>, \<lparr>isOn = False\<rparr>],
      [\<lparr>isOn = False\<rparr>, \<lparr>isOn = False\<rparr>, \<lparr>isOn = True\<rparr>]]"

text \<open>The real number that a double stands for.\<close>

definition unitValue :: "UnitDouble \<Rightarrow> real" where
  "unitValue u = real (mant u) / 2 ^ expo u"

text \<open>The doubles \<open>0\<close> and \<open>0.5\<close>.\<close>

definition zeroDouble :: UnitDouble where
  "zeroDouble = \<lparr>mant = 0, expo = 0\<rparr>"

definition halfDouble :: UnitDouble where
  "halfDouble = \<lparr>mant = 1, expo = 1\<rparr>"

text \<open>
  The double just below the middle of the \<open>i\<close>-th of \<open>n\<close> equal parts of \<open>[0, 1)\<close>:
  \<open>(2 i + 1) / (2 n)\<close>, cut to a multiple of \<open>2\<^sup>-\<^sup>5\<^sup>3\<close>.
\<close>

definition midDouble :: "int \<Rightarrow> int \<Rightarrow> UnitDouble" where
  "midDouble i n = \<lparr>mant = nat (((2 * i + 1) * 2 ^ 52) div n), expo = 53\<rparr>"

text \<open>
  Random sources used as concrete inputs. \<open>luckyRandom k\<close> makes the attempt that
  starts at the \<open>k\<close>-th draw pick row \<open>0\<close> and a column in the middle first, and the
  cell \<open>(0, 0)\<close> from then on.
\<close>

definition zeroRandom :: random where
  "zeroRandom k = zeroDouble"

definition demoRandom :: random where
  "demoRandom k = (if k = 0 then halfDouble else zeroDouble)"

definition retryRandom :: random where
  "retryRandom k = (if k = 8 then halfDouble else zeroDouble)"

definition luckyRandom :: "nat \<Rightarrow> random" where
  "luckyRandom k j = (if j = k + 1 then halfDouble else zeroDouble)"

text \<open>Game states used as concrete inputs: one with the sound switched off, one won.\<close>

definition quietSession :: GameSession where
  "quietSession =
     \<lparr>board = demoBoard, boardSize = 3, difficulty = Medium, moves = 0, hasWon = False,
      lastClick = None, audioCtx = True, soundEnabled = False, interactiveSound = True\<rparr>"

definition loudSession :: GameSession where
  "loudSession = quietSession\<lparr>soundEnabled := True\<rparr>"

definition wonSession :: GameSession where
  "wonSession =
     \<lparr>board = replicate 3 (replicate 3 \<lparr>isOn = False\<rparr>), boardSize = 3, difficulty = Medium,
      moves = 5, hasWon = True, lastClick = Some (1, 1), audioCtx = True, soundEnabled = True,
      interactiveSound = True\<rparr>"

section \<open>Basic facts about boards\<close>


lemma wf_board_nth:
  "wf_board n b \<Longrightarrow> i < nat n \<Longrightarrow> length (b ! i) = nat n"
  by (simp add: wf_board_def list_all_length)

lemma board_eqI:
  assumes "wf_board n b" and "wf_board n b'"
    and "\<And>i j. inGrid n i j \<Longrightarrow> cellOn b i j = cellOn b' i j"
  shows "b = b'"
proof (rule nth_equalityI)
  show "length b = length b'"
    using assms(1,2) by (simp add: wf_board_def)
next
  fix i assume i: "i < length b"
  then have lt: "i < nat n" using assms(1) by (simp add: wf_board_def)
  show "b ! i = b' ! i"
  proof (rule nth_equalityI)
    show "length (b ! i) = length (b' ! i)"
      using lt assms(1,2) by (simp add: wf_board_nth)
  next
    fix j assume "j < length (b ! i)"
    then have "j < nat n" using lt assms(1) by (simp add: wf_board_nth)
    with lt have "inGrid n (int i) (int j)"
      unfolding inGrid_def by linarith
    from assms(3)[OF this] show "b ! i ! j = b' ! i ! j"
      by (simp add: cellOn_def)
  qed
qed

lemma toggle_wf:
  assumes "wf_board n b"
  shows "\<exists>b'. toggle n r c b = Inr b' \<and> wf_board n b' \<and>
           (\<forall>i j. inGrid n i j \<longrightarrow> cellOn b' i j = (cellOn b i j \<noteq> (i = r \<and> j = c)))"
proof (cases "r \<ge> 0 \<and> r < n \<and> c \<ge> 0 \<and> c < n")
  case False
  then have "toggle n r c b = Inr b" unfolding toggle_def by auto
  moreover have "\<forall>i j. inGrid n i j \<longrightarrow> \<not> (i = r \<and> j = c)"
    using False by (auto simp: inGrid_def)
  ultimately show ?thesis using assms by auto
next
  case True
  then have r: "nat r < length b" using assms by (simp add: wf_board_def)
  then have c: "nat c < length (b ! nat r)"
    using True assms by (simp add: wf_board_def list_all_length)
  let ?row = "(b ! nat r)[nat c := (b ! nat r ! nat c)\<lparr>isOn := \<not> isOn (b ! nat r ! nat c)\<rparr>]"
  let ?b = "b[nat r := ?row]"
  have eq: "toggle n r c b = Inr ?b"
    using True r c by (simp add: toggle_def)
  have wf: "wf_board n ?b"
    using assms r unfolding wf_board_def list_all_length
    by (auto simp: nth_list_update)
  have cells: "cellOn ?b i j = (cellOn b i j \<noteq> (i = r \<and> j = c))" if "inGrid n i j" for i j
  proof -
    from that assms have i: "nat i < length b" and j: "nat j < length (b ! nat i)"
      by (auto simp: inGrid_def wf_board_def list_all_length)
    from that True have "nat i = nat r \<longleftrightarrow> i = r" "nat j = nat c \<longleftrightarrow> j = c"
      by (auto simp: inGrid_def)
    then show ?thesis
      using i j r c by (auto simp: cellOn_def nth_list_update)
  qed
  from eq wf cells show ?thesis by blast
qed

lemma toggleCellAndNeighbors_wf:
  assumes "wf_board n b"
  shows "\<exists>b'. toggleCellAndNeighbors row col b n = Inr b' \<and> wf_board n b' \<and>
           (\<forall>i j. inGrid n i j \<longrightarrow> cellOn b' i j = (cellOn b i j \<noteq> inPlus row col i j))"
proof -
  from toggle_wf[OF assms, of row col] obtain b1 where
    b1: "toggle n row col b = Inr b1" "wf_board n b1"
      "\<forall>i j. inGrid n i j \<longrightarrow> cellOn b1 i j = (cellOn b i j \<noteq> (i = row \<and> j = col))"
    by blast
  from toggle_wf[OF b1(2), of "row - 1" col] obtain b2 where
    b2: "toggle n (row - 1) col b1 = Inr b2" "wf_board n b2"
      "\<forall>i j. inGrid n i j \<longrightarrow> cellOn b2 i j = (cellOn b1 i j \<noteq> (i = row - 1 \<and> j = col))"
    by blast
  from toggle_wf[OF b2(2), of "row + 1" col] obtain b3 where
    b3: "toggle n (row + 1) col b2 = Inr b3" "wf_board n b3"
      "\<forall>i j. inGrid n i j \<longrightarrow> cellOn b3 i j = (cellOn b2 i j \<noteq> (i = row + 1 \<and> j = col))"
    by blast
  from toggle_wf[OF b3(2), of row "col - 1"] obtain b4 where
    b4: "toggle n row (col - 1) b3 = Inr b4" "wf_board n b4"
      "\<forall>i j. inGrid n i j \<longrightarrow> cellOn b4 i j = (cellOn b3 i j \<noteq> (i = row \<and> j = col - 1))"
    by blast
  from toggle_wf[OF b4(2), of row "col + 1"] obtain b5 where
    b5: "toggle n row (col + 1) b4 = Inr b5" "wf_board n b5"
      "\<forall>i j. inGrid n i j \<longrightarrow> cellOn b5 i j = (cellOn b4 i j \<noteq> (i = row \<and> j = col + 1))"
    by blast
  have run: "toggleCellAndNeighbors row col b n = Inr b5"
    by (simp add: toggleCellAndNeighbors_def andThen_def b1(1) b2(1) b3(1) b4(1) b5(1))
  have "cellOn b5 i j = (cellOn b i j \<noteq> inPlus row col i j)" if g: "inGrid n i j" for i j
    using b1(3) b2(3) b3(3) b4(3) b5(3) g unfolding inPlus_def by auto
  with run b5(2) show ?thesis by blast
qed

lemma scrambleToggle_eq: "scrambleToggle n r c b = toggleCellAndNeighbors r c b n"
  by (simp add: scrambleToggle_def toggleCellAndNeighbors_def)

lemma applyMoves_wf:
  assumes "wf_board n b"
  shows "\<exists>b'. applyMoves n ms b = Inr b' \<and> wf_board n b' \<and>
           (\<forall>i j. inGrid n i j \<longrightarrow>
              cellOn b' i j = (cellOn b i j \<noteq> odd (length (filter (\<lambda>(r, c). inPlus r c i j) ms))))"
  using assms
proof (induction ms arbitrary: b)
  case Nil
  then show ?case by simp
next
  case (Cons m ms)
  obtain r c where m: "m = (r, c)" by (cases m)
  from toggleCellAndNeighbors_wf[OF Cons.prems, of r c] obtain b1 where
    b1: "toggleCellAndNeighbors r c b n = Inr b1" "wf_board n b1"
      "\<forall>i j. inGrid n i j \<longrightarrow> cellOn b1 i j = (cellOn b i j \<noteq> inPlus r c i j)"
    by blast
  from Cons.IH[OF b1(2)] obtain b2 where
    b2: "applyMoves n ms b1 = Inr b2" "wf_board n b2"
      "\<forall>i j. inGrid n i j \<longrightarrow>
          cellOn b2 i j = (cellOn b1 i j \<noteq> odd (length (filter (\<lambda>(r, c). inPlus r c i j) ms)))"
    by blast
  have "applyMoves n (m # ms) b = Inr b2"
    by (simp add: m b1(1) b2(1) andThen_def)
  moreover have "cellOn b2 i j =
      (cellOn b i j \<noteq> odd (length (filter (\<lambda>(r, c). inPlus r c i j) (m # ms))))"
    if "inGrid n i j" for i j
    using b1(3) b2(3) that by (auto simp: m)
  ultimately show ?case using b2(2) by blast
qed

lemma plus_count:
  "length (filter (\<lambda>(r, c). inPlus r c i j) ms) =
     count_list ms (i, j) + count_list ms (i + 1, j) + count_list ms (i - 1, j) +
     count_list ms (i, j + 1) + count_list ms (i, j - 1)"
  by (induction ms) (auto simp: inPlus_def)

lemma allCellsOff_iff:
  assumes "wf_board n b"
  shows "allCellsOff b \<longleftrightarrow> (\<forall>i j. inGrid n i j \<longrightarrow> \<not> cellOn b i j)"
proof
  assume off: "allCellsOff b"
  show "\<forall>i j. inGrid n i j \<longrightarrow> \<not> cellOn b i j"
  proof (intro allI impI)
    fix i j assume g: "inGrid n i j"
    with assms have i: "nat i < length b" and j: "nat j < length (b ! nat i)"
      by (auto simp: inGrid_def wf_board_def list_all_length)
    then have "b ! nat i \<in> set b" and "b ! nat i ! nat j \<in> set (b ! nat i)"
      by simp_all
    then have "b ! nat i ! nat j \<in> set (concat b)" by auto
    with off show "\<not> cellOn b i j"
      by (auto simp: allCellsOff_def cellOn_def list_all_iff)
  qed
next
  assume cells: "\<forall>i j. inGrid n i j \<longrightarrow> \<not> cellOn b i j"
  have "\<not> isOn x" if "x \<in> set (concat b)" for x
  proof -
    from that obtain row where row: "row \<in> set b" "x \<in> set row" by auto
    then obtain i where i: "i < length b" "b ! i = row" by (auto simp: in_set_conv_nth)
    from row(2) obtain j where j: "j < length row" "row ! j = x" by (auto simp: in_set_conv_nth)
    from i j assms have "inGrid n (int i) (int j)"
      by (auto simp: inGrid_def wf_board_def list_all_length)
    with cells have "\<not> cellOn b (int i) (int j)" by blast
    with i j show ?thesis by (simp add: cellOn_def)
  qed
  then show "allCellsOff b" by (simp add: allCellsOff_def list_all_iff)
qed

lemma allOffBoard_wf:
  assumes "0 \<le> n"
  shows "\<exists>b0. allOffBoard n = Inr b0 \<and> wf_board n b0 \<and> (\<forall>i j. inGrid n i j \<longrightarrow> \<not> cellOn b0 i j)"
  using assms by (auto simp: allOffBoard_def wf_board_def list_all_length inGrid_def cellOn_def)

section \<open>Facts about the rounded product\<close>

lemma bitLength_bounds:
  assumes "0 < p"
  shows "2 ^ (bitLength p - 1) \<le> p \<and> p < 2 ^ bitLength p"
  using assms
proof (induction p rule: bitLength.induct)
  case (1 p)
  show ?case
  proof (cases "p div 2 = 0")
    case True
    with 1 have "p = 1" by arith
    then show ?thesis by (simp add: bitLength.simps)
  next
    case False
    then have pos: "0 < p div 2" by simp
    from 1 have p0: "p \<noteq> 0" by simp
    from "1.IH"[OF p0 pos] have
      ih: "2 ^ (bitLength (p div 2) - 1) \<le> p div 2" "p div 2 < 2 ^ bitLength (p div 2)"
      by auto
    have bl: "bitLength p = Suc (bitLength (p div 2))"
      using p0 by (subst bitLength.simps) simp
    have bpos: "0 < bitLength (p div 2)"
      using pos by (subst bitLength.simps) simp
    then have e: "2 ^ bitLength (p div 2) = (2::nat) * 2 ^ (bitLength (p div 2) - 1)"
      by (cases "bitLength (p div 2)") simp_all
    have "2 ^ (bitLength p - 1) \<le> p"
      using ih(1) e by (simp add: bl)
    moreover have "p < 2 ^ bitLength p"
      using ih(2) by (simp add: bl)
    ultimately show ?thesis by simp
  qed
qed

lemma bitLength_numeral:
  "bitLength 0 = 0"
  "bitLength (Suc 0) = Suc 0"
  "bitLength (numeral k) = Suc (bitLength (numeral k div 2))"
  by (subst bitLength.simps, simp)+

lemma bitLength_ge:
  assumes "2 ^ 53 \<le> p"
  shows "54 \<le> bitLength p"
proof (rule ccontr)
  assume "\<not> 54 \<le> bitLength p"
  then have "bitLength p \<le> 53" by simp
  then have "(2::nat) ^ bitLength p \<le> 2 ^ 53"
    by (intro power_increasing) simp_all
  moreover from assms have "p < 2 ^ bitLength p"
    using bitLength_bounds[of p] by simp
  ultimately show False using assms by linarith
qed

text \<open>The shape of a rounded number: the quotient or its successor, times the unit.\<close>

lemma roundNat53_cases:
  assumes "2 ^ 53 \<le> p"
  defines "s \<equiv> bitLength p - 53"
  shows "roundNat53 p = (p div 2 ^ s) * 2 ^ s \<or>
         (roundNat53 p = (p div 2 ^ s + 1) * 2 ^ s \<and> 2 ^ s \<le> 2 * (p mod 2 ^ s))"
  using assms(1) unfolding roundNat53_def s_def Let_def by auto

lemma roundNat53_unit:
  assumes "2 ^ 53 \<le> p"
  defines "s \<equiv> bitLength p - 53"
  shows "2 ^ s * 2 ^ 52 \<le> p" and "1 \<le> s"
proof -
  from bitLength_ge[OF assms(1)] have L: "54 \<le> bitLength p" .
  then show "1 \<le> s" by (simp add: s_def)
  from assms(1) have "0 < p" by simp
  from bitLength_bounds[OF this] have "2 ^ (bitLength p - 1) \<le> p" by simp
  moreover have "bitLength p - 1 = s + 52" using L by (simp add: s_def)
  ultimately show "2 ^ s * 2 ^ 52 \<le> p" by (simp add: power_add)
qed

lemma roundNat53_upper: "roundNat53 p * 2 ^ 53 \<le> p * (2 ^ 53 + 1)"
proof (cases "p < 2 ^ 53")
  case True
  then show ?thesis by (simp add: roundNat53_def)
next
  case False
  then have big: "2 ^ 53 \<le> p" by simp
  define s where "s = bitLength p - 53"
  define q where "q = p div 2 ^ s"
  define r where "r = p mod 2 ^ s"
  define U :: nat where "U = 2 ^ s"
  have p: "p = q * U + r"
    unfolding q_def r_def U_def by (rule div_mult_mod_eq[symmetric])
  from roundNat53_unit[OF big] have unit: "U * 2 ^ 52 \<le> p"
    by (simp add: s_def U_def)
  from roundNat53_cases[OF big] have
    "roundNat53 p = q * U \<or> (roundNat53 p = (q + 1) * U \<and> U \<le> 2 * r)"
    by (simp add: s_def q_def r_def U_def)
  then have "2 * roundNat53 p \<le> 2 * p + U"
  proof
    assume "roundNat53 p = q * U"
    then show ?thesis using p by simp
  next
    assume h: "roundNat53 p = (q + 1) * U \<and> U \<le> 2 * r"
    then have "2 * roundNat53 p = 2 * (q * U) + 2 * U" by (simp add: algebra_simps)
    also have "\<dots> \<le> 2 * (q * U) + 2 * r + U" using h by simp
    also have "\<dots> = 2 * p + U" using p by simp
    finally show ?thesis .
  qed
  then have "(2 * roundNat53 p) * 2 ^ 52 \<le> (2 * p + U) * 2 ^ 52"
    by (rule mult_le_mono1)
  also have "\<dots> = p * 2 ^ 53 + U * 2 ^ 52" by (simp add: algebra_simps)
  also have "\<dots> \<le> p * 2 ^ 53 + p" using unit by simp
  finally show ?thesis by (simp add: algebra_simps)
qed

lemma roundNat53_lower:
  assumes "j < 2 ^ 53" and "j * 2 ^ e \<le> p"
  shows "j * 2 ^ e \<le> roundNat53 p"
proof (cases "p < 2 ^ 53")
  case True
  then show ?thesis using assms(2) by (simp add: roundNat53_def)
next
  case False
  then have big: "2 ^ 53 \<le> p" by simp
  define s where "s = bitLength p - 53"
  define q where "q = p div 2 ^ s"
  from roundNat53_unit[OF big] have unit: "2 ^ s * 2 ^ 52 \<le> p"
    by (simp add: s_def)
  from roundNat53_cases[OF big] have ge: "q * 2 ^ s \<le> roundNat53 p"
    by (auto simp: s_def q_def)
  have "j * 2 ^ e \<le> q * 2 ^ s"
  proof (cases "s \<le> e")
    case True
    then have eq: "j * 2 ^ e = (j * 2 ^ (e - s)) * 2 ^ s"
      by (simp add: power_add[symmetric])
    with assms(2) have "(j * 2 ^ (e - s)) * 2 ^ s \<le> p" by simp
    then have "j * 2 ^ (e - s) \<le> q"
      unfolding q_def by (simp add: less_eq_div_iff_mult_less_eq)
    then have "(j * 2 ^ (e - s)) * 2 ^ s \<le> q * 2 ^ s" by (rule mult_le_mono1)
    then show ?thesis by (subst eq)
  next
    case False
    then have "Suc e \<le> s" by simp
    then have "(2::nat) ^ Suc e \<le> 2 ^ s" by (intro power_increasing) simp_all
    then have es: "(2::nat) * 2 ^ e \<le> 2 ^ s" by simp
    have "2 ^ 52 * 2 ^ s \<le> p" using unit by (simp add: mult.commute)
    then have "2 ^ 52 \<le> q"
      unfolding q_def by (simp add: less_eq_div_iff_mult_less_eq)
    then have "2 ^ 52 * 2 ^ s \<le> q * 2 ^ s" by (rule mult_le_mono1)
    moreover have "j * 2 ^ e \<le> 2 ^ 53 * 2 ^ e"
      using assms(1) by (intro mult_le_mono1) simp
    moreover have "(2::nat) ^ 53 * 2 ^ e = 2 ^ 52 * (2 * 2 ^ e)" by simp
    moreover have "(2::nat) ^ 52 * (2 * 2 ^ e) \<le> 2 ^ 52 * 2 ^ s"
      using es by (rule mult_le_mono2)
    ultimately show ?thesis by linarith
  qed
  with ge show ?thesis by linarith
qed


lemma randIndex_nat:
  assumes "0 \<le> n"
  shows "randIndex u n = int (roundNat53 (mant u * nat n) div 2 ^ expo u)"
  using assms by (simp add: randIndex_def zdiv_int)

lemma randIndex_range:
  assumes "isUnitDouble u" and "1 \<le> n"
  shows "0 \<le> randIndex u n \<and> randIndex u n < n"
proof -
  define m where "m = mant u"
  define e where "e = expo u"
  define N where "N = nat n"
  define R where "R = roundNat53 (m * N)"
  define K :: nat where "K = 2 ^ 53"
  from assms(1) have m: "m < K" "Suc m \<le> 2 ^ e"
    by (simp_all add: isUnitDouble_def m_def e_def K_def)
  from assms(2) have N: "0 < N" by (simp add: N_def)
  have "m * (K + 1) = m * K + m" by simp
  also have "\<dots> < m * K + K" using m(1) by simp
  also have "\<dots> = Suc m * K" by simp
  also have "\<dots> \<le> 2 ^ e * K" using m(2) by (rule mult_le_mono1)
  finally have "m * (K + 1) < 2 ^ e * K" .
  with N have "N * (m * (K + 1)) < N * (2 ^ e * K)" by simp
  then have b: "(m * N) * (K + 1) < (N * 2 ^ e) * K" by (simp only: mult_ac)
  have "R * K \<le> (m * N) * (K + 1)"
    unfolding R_def K_def by (rule roundNat53_upper)
  with b have "R * K < (N * 2 ^ e) * K" by linarith
  then have "R < N * 2 ^ e" by simp
  then have "R div 2 ^ e < N" by (simp add: less_mult_imp_div_less)
  moreover have "randIndex u n = int (R div 2 ^ e)"
    using assms(2) by (simp add: randIndex_nat R_def m_def e_def N_def)
  ultimately show ?thesis using assms(2) by (simp add: N_def)
qed

lemma randIndex_inside:
  assumes "i < 2 ^ 53"
    and "i * 2 ^ expo u \<le> mant u * N"
    and "(mant u * N) * (2 ^ 53 + 1) < (Suc i * 2 ^ expo u) * 2 ^ 53"
  shows "roundNat53 (mant u * N) div 2 ^ expo u = i"
proof -
  define R where "R = roundNat53 (mant u * N)"
  have lo: "i * 2 ^ expo u \<le> R"
    unfolding R_def by (rule roundNat53_lower[OF assms(1,2)])
  have "R * 2 ^ 53 \<le> (mant u * N) * (2 ^ 53 + 1)"
    unfolding R_def by (rule roundNat53_upper)
  with assms(3) have "R * 2 ^ 53 < (Suc i * 2 ^ expo u) * 2 ^ 53" by linarith
  then have hi: "R < Suc i * 2 ^ expo u" by simp
  from lo hi have "R div 2 ^ expo u = i"
    by (intro div_nat_eqI) (simp_all add: mult.commute)
  then show ?thesis by (simp add: R_def)
qed

lemma randIndex_preimage:
  assumes "Suc i < 2 ^ 53"
    and "roundNat53 (mant u * N) div 2 ^ expo u = i"
  shows "(i * 2 ^ expo u) * 2 ^ 53 \<le> (mant u * N) * (2 ^ 53 + 1)"
    and "mant u * N < Suc i * 2 ^ expo u"
proof -
  define R where "R = roundNat53 (mant u * N)"
  from assms(2) have d: "R div 2 ^ expo u = i" by (simp add: R_def)
  have "(R div 2 ^ expo u) * 2 ^ expo u \<le> R" by simp
  with d have "i * 2 ^ expo u \<le> R" by simp
  then have "(i * 2 ^ expo u) * 2 ^ 53 \<le> R * 2 ^ 53" by (rule mult_le_mono1)
  also have "\<dots> \<le> (mant u * N) * (2 ^ 53 + 1)"
    unfolding R_def by (rule roundNat53_upper)
  finally show "(i * 2 ^ expo u) * 2 ^ 53 \<le> (mant u * N) * (2 ^ 53 + 1)" .
  show "mant u * N < Suc i * 2 ^ expo u"
  proof (rule ccontr)
    assume "\<not> mant u * N < Suc i * 2 ^ expo u"
    then have "Suc i * 2 ^ expo u \<le> mant u * N" by simp
    from roundNat53_lower[OF assms(1) this] have "Suc i * 2 ^ expo u \<le> R"
      by (simp add: R_def)
    then have "Suc i \<le> R div 2 ^ expo u"
      by (simp add: less_eq_div_iff_mult_less_eq)
    with d show False by simp
  qed
qed


lemma unitValue_times:
  assumes "0 \<le> n"
  shows "unitValue u * real_of_int n = real (mant u * nat n) / 2 ^ expo u"
  using assms by (simp add: unitValue_def)

lemma randIndex_interval:
  assumes "0 \<le> n" and "0 \<le> i" and "i + 1 < 2 ^ 53"
  shows "real_of_int i \<le> unitValue u * real_of_int n \<Longrightarrow>
         unitValue u * real_of_int n * (1 + 1 / 2 ^ 53) < real_of_int i + 1 \<Longrightarrow>
         randIndex u n = i"
    and "randIndex u n = i \<Longrightarrow>
         real_of_int i \<le> unitValue u * real_of_int n * (1 + 1 / 2 ^ 53) \<and>
         unitValue u * real_of_int n < real_of_int i + 1"
proof -
  define I where "I = nat i"
  define N where "N = nat n"
  define P where "P = mant u * N"
  define E :: nat where "E = 2 ^ expo u"
  define K :: nat where "K = 2 ^ 53"
  have i: "real_of_int i = real I" using assms(2) by (simp add: I_def)
  have I: "Suc I < 2 ^ 53" "I < 2 ^ 53" using assms(2,3) by (simp_all add: I_def)
  have Epos: "0 < real E" by (simp add: E_def)
  have x: "unitValue u * real_of_int n = real P / real E"
    using assms(1) by (simp add: unitValue_times P_def N_def E_def)
  have k: "1 + 1 / 2 ^ 53 = (real K + 1) / real K" by (simp add: K_def)
  have Kpos: "0 < real K" by (simp add: K_def)
  have r: "randIndex u n = int (roundNat53 P div E)"
    using assms(1) by (simp add: randIndex_nat P_def N_def E_def)
  {
    assume lo: "real_of_int i \<le> unitValue u * real_of_int n"
      and hi: "unitValue u * real_of_int n * (1 + 1 / 2 ^ 53) < real_of_int i + 1"
    from lo have "real I * real E \<le> real P"
      using Epos by (simp add: i x pos_le_divide_eq)
    then have "real (I * E) \<le> real P" by simp
    then have lo': "I * E \<le> P" by (simp only: of_nat_le_iff)
    from hi have "real P / real E * ((real K + 1) / real K) < real I + 1"
      by (simp only: i x k)
    then have "real P * (real K + 1) < (real I + 1) * (real E * real K)"
      using Epos Kpos by (simp add: field_simps)
    then have "real (P * (K + 1)) < real ((Suc I * E) * K)" by (simp add: algebra_simps)
    then have hi': "P * (K + 1) < (Suc I * E) * K" by (simp only: of_nat_less_iff)
    from randIndex_inside[of I u N] I(2) lo' hi'
    have "roundNat53 P div E = I" by (simp add: P_def E_def K_def)
    with r show "randIndex u n = i" using assms(2) by (simp add: I_def)
  }
  {
    assume eq: "randIndex u n = i"
    with r have "roundNat53 P div E = I" by (simp add: I_def)
    from randIndex_preimage[OF I(1), of u N] this
    have lo': "(I * E) * K \<le> P * (K + 1)" and hi': "P < Suc I * E"
      by (simp_all add: P_def E_def K_def)
    from lo' have "real ((I * E) * K) \<le> real (P * (K + 1))" by (simp only: of_nat_le_iff)
    then have "real I * (real E * real K) \<le> real P * (real K + 1)" by (simp add: algebra_simps)
    then have "real I \<le> real P / real E * ((real K + 1) / real K)"
      using Epos Kpos by (simp add: field_simps)
    then have lo: "real_of_int i \<le> unitValue u * real_of_int n * (1 + 1 / 2 ^ 53)"
      by (simp only: i x k)
    from hi' have "real P < real (Suc I * E)" by (simp only: of_nat_less_iff)
    then have "real P < (real I + 1) * real E" by (simp add: algebra_simps)
    then have hi: "unitValue u * real_of_int n < real_of_int i + 1"
      using Epos by (simp add: i x pos_divide_less_eq)
    from lo hi show "real_of_int i \<le> unitValue u * real_of_int n * (1 + 1 / 2 ^ 53) \<and>
         unitValue u * real_of_int n < real_of_int i + 1" by simp
  }
qed


lemma midDouble_draws:
  assumes "0 \<le> i" and "i < n" and "n \<le> 2 ^ 52"
  shows "isUnitDouble (midDouble i n) \<and> randIndex (midDouble i n) n = i"
proof -
  define I where "I = nat i"
  define N where "N = nat n"
  define H :: nat where "H = 2 ^ 52"
  define A where "A = (2 * I + 1) * H"
  define m where "m = A div N"
  have IN: "I < N" "0 < N" "N \<le> H" using assms by (simp_all add: I_def N_def H_def)
  have K: "(2::nat) ^ 53 = 2 * H" by (simp add: H_def)
  have "(2 * i + 1) * 2 ^ 52 = int A" and "n = int N"
    using assms by (simp_all add: A_def I_def N_def H_def)
  then have "((2 * i + 1) * 2 ^ 52) div n = int A div int N"
    by (simp only:)
  then have mant: "mant (midDouble i n) = m"
    by (simp add: midDouble_def m_def zdiv_int[symmetric])
  have expo: "expo (midDouble i n) = 53" by (simp add: midDouble_def)
  have le: "m * N \<le> A" by (simp add: m_def)
  have "A < (m + 1) * N"
    using IN(2) unfolding m_def by (metis Suc_eq_plus1 dividend_less_div_times mult.commute mult_Suc_right add.commute)
  then have gt: "A < m * N + N" by (simp add: algebra_simps)
  have lo: "I * (2 * H) \<le> m * N"
  proof -
    have "I * (2 * H) + H = A" by (simp add: A_def algebra_simps)
    with gt IN(3) show ?thesis by linarith
  qed
  have small: "2 * I + 1 < 2 * H" using IN by linarith
  have hi: "(m * N) * (2 * H + 1) < (Suc I * (2 * H)) * (2 * H)"
  proof -
    have "(m * N) * (2 * H + 1) \<le> A * (2 * H + 1)" using le by (rule mult_le_mono1)
    also have "\<dots> = A * (2 * H) + (2 * I + 1) * H" by (simp add: A_def algebra_simps)
    also have "\<dots> < A * (2 * H) + (2 * H) * H"
      using small by (simp add: H_def)
    also have "\<dots> = (Suc I * (2 * H)) * (2 * H)" by (simp add: A_def algebra_simps)
    finally show ?thesis .
  qed
  have "m * N < (2 * H) * N"
  proof -
    have "A < (2 * H) * N" using IN(1) unfolding A_def by (simp add: H_def)
    with le show ?thesis by linarith
  qed
  then have mK: "m < 2 * H" by simp
  have unit: "isUnitDouble (midDouble i n)"
    using mK by (simp add: isUnitDouble_def mant expo H_def)
  have "roundNat53 (mant (midDouble i n) * N) div 2 ^ expo (midDouble i n) = I"
  proof (rule randIndex_inside)
    show "I < 2 ^ 53" using IN by (simp add: H_def)
    show "I * 2 ^ expo (midDouble i n) \<le> mant (midDouble i n) * N"
      using lo by (simp add: mant expo H_def)
    show "mant (midDouble i n) * N * (2 ^ 53 + 1) < Suc I * 2 ^ expo (midDouble i n) * 2 ^ 53"
      using hi by (simp only: mant expo K)
  qed
  then have "randIndex (midDouble i n) n = i"
    using assms by (simp add: randIndex_nat N_def I_def)
  with unit show ?thesis by simp
qed

section \<open>Facts about the scramble loop\<close>

lemma scrambleLoop_eq:
  "scrambleLoop n rnd k m b = applyMoves n (drawnMoves n rnd k m) b"
  by (induction m arbitrary: k b) (auto simp: scrambleToggle_eq andThen_def Let_def split: sum.splits)

lemma drawnMoves_length: "length (drawnMoves n rnd k m) = m"
  by (induction m arbitrary: k) auto

lemma drawnMoves_inGrid:
  assumes "goodRandom rnd" "1 \<le> n"
  shows "list_all (\<lambda>(i, j). inGrid n i j) (drawnMoves n rnd k m)"
  using assms randIndex_range[of _ n]
  by (induction m arbitrary: k) (auto simp: goodRandom_def inGrid_def)

lemma drawnMoves_nth:
  assumes "t < m"
  shows "drawnMoves n rnd k m ! t =
           (randIndex (rnd (k + 2 * t)) n, randIndex (rnd (k + 2 * t + 1)) n)"
  using assms
proof (induction m arbitrary: k t)
  case 0
  then show ?case by simp
next
  case (Suc m)
  show ?case
  proof (cases t)
    case 0
    then show ?thesis by simp
  next
    case (Suc t')
    with Suc.prems have "t' < m" by simp
    from Suc.IH[OF this, of "k + 2"] Suc show ?thesis by simp
  qed
qed

lemma scrambleMovesCount_div:
  "scrambleMovesCount n Easy = (3 * n) div 2"
  "scrambleMovesCount n Medium = (5 * n) div 2"
  "scrambleMovesCount n Hard = n * n"
proof -
  have "real_of_int n * 1.5 = real_of_int (3 * n) / real_of_int 2" by simp
  then show "scrambleMovesCount n Easy = (3 * n) div 2"
    unfolding scrambleMovesCount_def by (simp only: Difficulty.case floor_divide_of_int_eq)
  have "real_of_int n * 2.5 = real_of_int (5 * n) / real_of_int 2" by simp
  then show "scrambleMovesCount n Medium = (5 * n) div 2"
    unfolding scrambleMovesCount_def by (simp only: Difficulty.case floor_divide_of_int_eq)
  show "scrambleMovesCount n Hard = n * n" by (simp add: scrambleMovesCount_def)
qed

section \<open>Properties of the move primitive\<close>

text \<open>
  Claim C2. The move primitive is an involution: on a board of size \<open>n\<close> and for a
  target inside the grid, the move applied twice at the same target gives back the board
  it started from.
\<close>

theorem move_involution:
  assumes "wf_board n b" and "inGrid n r c"
  shows "andThen (toggleCellAndNeighbors r c b n) (\<lambda>b'. toggleCellAndNeighbors r c b' n) = Inr b"
proof -
  from toggleCellAndNeighbors_wf[OF assms(1), of r c] obtain b1 where
    b1: "toggleCellAndNeighbors r c b n = Inr b1" "wf_board n b1"
      "\<forall>i j. inGrid n i j \<longrightarrow> cellOn b1 i j = (cellOn b i j \<noteq> inPlus r c i j)"
    by blast
  from toggleCellAndNeighbors_wf[OF b1(2), of r c] obtain b2 where
    b2: "toggleCellAndNeighbors r c b1 n = Inr b2" "wf_board n b2"
      "\<forall>i j. inGrid n i j \<longrightarrow> cellOn b2 i j = (cellOn b1 i j \<noteq> inPlus r c i j)"
    by blast
  have "b2 = b"
    by (rule board_eqI[OF b2(2) assms(1)]) (use b1(3) b2(3) in auto)
  then show ?thesis by (simp add: andThen_def b1(1) b2(1))
qed

theorem move_involution_witness:
  "wf_board 3 demoBoard \<and> inGrid 3 0 2 \<and>
   andThen (toggleCellAndNeighbors 0 2 demoBoard 3) (\<lambda>b'. toggleCellAndNeighbors 0 2 b' 3)
     = Inr demoBoard"
  using move_involution[of 3 demoBoard 0 2]
  by (simp add: wf_board_def demoBoard_def inGrid_def)

lemma applyMoves_parity:
  assumes "wf_board n b"
    and "\<And>p. even (count_list ms p) = even (count_list ms' p)"
  shows "applyMoves n ms b = applyMoves n ms' b"
proof -
  from applyMoves_wf[OF assms(1), of ms] obtain b1 where
    b1: "applyMoves n ms b = Inr b1" "wf_board n b1"
      "\<forall>i j. inGrid n i j \<longrightarrow>
         cellOn b1 i j = (cellOn b i j \<noteq> odd (length (filter (\<lambda>(r, c). inPlus r c i j) ms)))"
    by blast
  from applyMoves_wf[OF assms(1), of ms'] obtain b2 where
    b2: "applyMoves n ms' b = Inr b2" "wf_board n b2"
      "\<forall>i j. inGrid n i j \<longrightarrow>
         cellOn b2 i j = (cellOn b i j \<noteq> odd (length (filter (\<lambda>(r, c). inPlus r c i j) ms')))"
    by blast
  have "odd (length (filter (\<lambda>(r, c). inPlus r c i j) ms)) =
        odd (length (filter (\<lambda>(r, c). inPlus r c i j) ms'))" for i j
    by (simp add: plus_count assms(2))
  then have "b1 = b2"
    using b1(3) b2(3) by (intro board_eqI[OF b1(2) b2(2)]) simp
  then show ?thesis by (simp add: b1(1) b2(1))
qed

text \<open>
  Claim C3. The move primitive is independent of order: two moves applied in either order
  give the same board, and two sequences of moves in which every coordinate occurs with
  the same parity give the same board.
\<close>

theorem move_order_independent:
  assumes "wf_board n b"
  shows "andThen (toggleCellAndNeighbors r1 c1 b n) (\<lambda>b'. toggleCellAndNeighbors r2 c2 b' n) =
         andThen (toggleCellAndNeighbors r2 c2 b n) (\<lambda>b'. toggleCellAndNeighbors r1 c1 b' n)
       \<and> (\<forall>ms ms'. (\<forall>p. even (count_list ms p) = even (count_list ms' p)) \<longrightarrow>
            applyMoves n ms b = applyMoves n ms' b)"
proof
  have "applyMoves n [(r1, c1), (r2, c2)] b = applyMoves n [(r2, c2), (r1, c1)] b"
    by (rule applyMoves_parity[OF assms]) auto
  then show "andThen (toggleCellAndNeighbors r1 c1 b n) (\<lambda>b'. toggleCellAndNeighbors r2 c2 b' n) =
         andThen (toggleCellAndNeighbors r2 c2 b n) (\<lambda>b'. toggleCellAndNeighbors r1 c1 b' n)"
    by (auto simp: andThen_def split: sum.splits)
next
  show "\<forall>ms ms'. (\<forall>p. even (count_list ms p) = even (count_list ms' p)) \<longrightarrow>
            applyMoves n ms b = applyMoves n ms' b"
    using applyMoves_parity[OF assms] by blast
qed

theorem move_order_independent_witness:
  "wf_board 3 demoBoard \<and>
   andThen (toggleCellAndNeighbors 0 0 demoBoard 3) (\<lambda>b'. toggleCellAndNeighbors 1 2 b' 3) =
   andThen (toggleCellAndNeighbors 1 2 demoBoard 3) (\<lambda>b'. toggleCellAndNeighbors 0 0 b' 3) \<and>
   (\<forall>p. even (count_list [(0, 0), (1, 2), (0, 0)] p) = even (count_list [(1, 2)] (p :: int \<times> int))) \<and>
   applyMoves 3 [(0, 0), (1, 2), (0, 0)] demoBoard = applyMoves 3 [(1, 2)] demoBoard"
proof -
  have wf: "wf_board 3 demoBoard" by (simp add: wf_board_def demoBoard_def)
  have par: "\<forall>p. even (count_list [(0, 0), (1, 2), (0, 0)] p) = even (count_list [(1, 2)] (p :: int \<times> int))"
    by simp
  from move_order_independent[OF wf, of 0 0 1 2] wf par show ?thesis by blast
qed

text \<open>
  Claim C10. The move primitive is total: for every integer target, in the grid or not, it
  throws nothing on a board of size \<open>n\<close>, returns a board of size \<open>n\<close>, and changes
  exactly the cells of the plus pattern that lie in the grid. A target one step outside
  the grid is not a no-op: the move at \<open>(-1, 0)\<close> flips the cell \<open>(0, 0)\<close>.
\<close>

theorem move_total:
  assumes "wf_board n b"
  shows "(\<exists>b'. toggleCellAndNeighbors row col b n = Inr b' \<and> wf_board n b' \<and>
            (\<forall>i j. inGrid n i j \<longrightarrow> (cellOn b' i j \<noteq> cellOn b i j) = inPlus row col i j))
       \<and> (1 \<le> n \<longrightarrow> toggleCellAndNeighbors (- 1) 0 b n \<noteq> Inr b)"
proof
  from toggleCellAndNeighbors_wf[OF assms, of row col]
  show "\<exists>b'. toggleCellAndNeighbors row col b n = Inr b' \<and> wf_board n b' \<and>
            (\<forall>i j. inGrid n i j \<longrightarrow> (cellOn b' i j \<noteq> cellOn b i j) = inPlus row col i j)"
    by auto
next
  show "1 \<le> n \<longrightarrow> toggleCellAndNeighbors (- 1) 0 b n \<noteq> Inr b"
  proof
    assume n: "1 \<le> n"
    from toggleCellAndNeighbors_wf[OF assms, of "- 1" 0] obtain b1 where
      b1: "toggleCellAndNeighbors (- 1) 0 b n = Inr b1"
        "\<forall>i j. inGrid n i j \<longrightarrow> cellOn b1 i j = (cellOn b i j \<noteq> inPlus (- 1) 0 i j)"
      by blast
    from n have "inGrid n 0 0" by (simp add: inGrid_def)
    with b1(2) have "cellOn b1 0 0 \<noteq> cellOn b 0 0" by (simp add: inPlus_def)
    then have "b1 \<noteq> b" by auto
    with b1(1) show "toggleCellAndNeighbors (- 1) 0 b n \<noteq> Inr b" by simp
  qed
qed

theorem move_total_witness:
  "wf_board 3 demoBoard \<and> (1::int) \<le> 3 \<and> \<not> inGrid 3 (- 1) 0 \<and>
   toggleCellAndNeighbors (- 1) 0 demoBoard 3 \<noteq> Inr demoBoard \<and>
   (\<exists>b'. toggleCellAndNeighbors 5 (- 7) demoBoard 3 = Inr b' \<and> wf_board 3 b' \<and>
      (\<forall>i j. inGrid 3 i j \<longrightarrow> (cellOn b' i j \<noteq> cellOn demoBoard i j) = inPlus 5 (- 7) i j))"
proof -
  have wf: "wf_board 3 demoBoard" by (simp add: wf_board_def demoBoard_def)
  from move_total[OF wf, of 5 "- 7"] wf show ?thesis by (simp add: inGrid_def)
qed

lemma plusCells_distinct: "distinct (plusCells r c)"
  by (simp add: plusCells_def)

lemma plusCells_set: "(i, j) \<in> set (plusCells r c) \<longleftrightarrow> inPlus r c i j"
  by (auto simp: plusCells_def inPlus_def)

lemma changedCells_length:
  assumes "\<forall>i j. inGrid n i j \<longrightarrow> (cellOn b' i j \<noteq> cellOn b i j) = inPlus r c i j"
  shows "length (changedCells n b b') = length (filter (\<lambda>(i, j). inGrid n i j) (plusCells r c))"
proof -
  have d1: "distinct (changedCells n b b')"
    by (simp add: changedCells_def distinct_product)
  have d2: "distinct (filter (\<lambda>(i, j). inGrid n i j) (plusCells r c))"
    by (simp add: plusCells_distinct)
  have "set (changedCells n b b') = set (filter (\<lambda>(i, j). inGrid n i j) (plusCells r c))"
  proof (rule set_eqI)
    fix p :: "int \<times> int"
    obtain i j where p: "p = (i, j)" by (cases p)
    have "p \<in> set (changedCells n b b') \<longleftrightarrow> inGrid n i j \<and> cellOn b' i j \<noteq> cellOn b i j"
      by (auto simp: p changedCells_def inGrid_def)
    also have "\<dots> \<longleftrightarrow> inGrid n i j \<and> inPlus r c i j"
      using assms by blast
    also have "\<dots> \<longleftrightarrow> p \<in> set (filter (\<lambda>(i, j). inGrid n i j) (plusCells r c))"
      by (auto simp: p plusCells_set)
    finally show "p \<in> set (changedCells n b b') \<longleftrightarrow>
        p \<in> set (filter (\<lambda>(i, j). inGrid n i j) (plusCells r c))" .
  qed
  then have "card (set (changedCells n b b')) =
      card (set (filter (\<lambda>(i, j). inGrid n i j) (plusCells r c)))" by simp
  then show ?thesis using d1 d2 by (simp only: distinct_card)
qed

lemma plus_in_grid_count:
  assumes "3 \<le> n"
  shows "isCorner n r c \<Longrightarrow> length (filter (\<lambda>(i, j). inGrid n i j) (plusCells r c)) = 3"
    and "isEdge n r c \<Longrightarrow> length (filter (\<lambda>(i, j). inGrid n i j) (plusCells r c)) = 4"
    and "isInterior n r c \<Longrightarrow> length (filter (\<lambda>(i, j). inGrid n i j) (plusCells r c)) = 5"
  using assms by (auto simp: isCorner_def isEdge_def isInterior_def plusCells_def inGrid_def)

text \<open>
  Claim C4. For a target inside the grid the move flips the target and those orthogonal
  neighbours that are in the grid and leaves every other cell as it was, the diagonal
  neighbours among them. For \<open>n \<ge> 3\<close> a move at a corner changes at most 3 cells, at
  an edge cell that is no corner at most 4, and at an interior cell exactly 5.
\<close>

theorem move_flips_plus:
  assumes "wf_board n b" and "inGrid n r c"
  shows "\<exists>b'. toggleCellAndNeighbors r c b n = Inr b' \<and>
     (\<forall>i j. inGrid n i j \<longrightarrow> (cellOn b' i j \<noteq> cellOn b i j) = inPlus r c i j) \<and>
     (\<forall>i j. inGrid n i j \<and> \<bar>i - r\<bar> = 1 \<and> \<bar>j - c\<bar> = 1 \<longrightarrow> cellOn b' i j = cellOn b i j) \<and>
     (3 \<le> n \<longrightarrow>
        (isCorner n r c \<longrightarrow> length (changedCells n b b') \<le> 3) \<and>
        (isEdge n r c \<longrightarrow> length (changedCells n b b') \<le> 4) \<and>
        (isInterior n r c \<longrightarrow> length (changedCells n b b') = 5))"
proof -
  from toggleCellAndNeighbors_wf[OF assms(1), of r c] obtain b1 where
    b1: "toggleCellAndNeighbors r c b n = Inr b1"
      "\<forall>i j. inGrid n i j \<longrightarrow> cellOn b1 i j = (cellOn b i j \<noteq> inPlus r c i j)"
    by blast
  have flips: "\<forall>i j. inGrid n i j \<longrightarrow> (cellOn b1 i j \<noteq> cellOn b i j) = inPlus r c i j"
    using b1(2) by auto
  have diag: "\<forall>i j. inGrid n i j \<and> \<bar>i - r\<bar> = 1 \<and> \<bar>j - c\<bar> = 1 \<longrightarrow> cellOn b1 i j = cellOn b i j"
  proof (intro allI impI)
    fix i j assume h: "inGrid n i j \<and> \<bar>i - r\<bar> = 1 \<and> \<bar>j - c\<bar> = 1"
    then have "\<not> inPlus r c i j" by (auto simp: inPlus_def)
    with h flips show "cellOn b1 i j = cellOn b i j" by blast
  qed
  have counts: "3 \<le> n \<longrightarrow>
        (isCorner n r c \<longrightarrow> length (changedCells n b b1) \<le> 3) \<and>
        (isEdge n r c \<longrightarrow> length (changedCells n b b1) \<le> 4) \<and>
        (isInterior n r c \<longrightarrow> length (changedCells n b b1) = 5)"
    using plus_in_grid_count[of n r c] by (simp add: changedCells_length[OF flips])
  from b1(1) flips diag counts show ?thesis by blast
qed

theorem move_flips_plus_witness:
  "wf_board 3 demoBoard \<and> (3::int) \<le> 3 \<and>
   inGrid 3 0 2 \<and> isCorner 3 0 2 \<and> inGrid 3 0 1 \<and> isEdge 3 0 1 \<and>
   inGrid 3 1 1 \<and> isInterior 3 1 1 \<and> \<bar>1 - 0\<bar> = (1::int) \<and> \<bar>1 - 2\<bar> = (1::int) \<and>
   (\<exists>b'. toggleCellAndNeighbors 0 2 demoBoard 3 = Inr b' \<and>
      cellOn b' 1 1 = cellOn demoBoard 1 1 \<and> length (changedCells 3 demoBoard b') \<le> 3) \<and>
   (\<exists>b'. toggleCellAndNeighbors 0 1 demoBoard 3 = Inr b' \<and>
      length (changedCells 3 demoBoard b') \<le> 4) \<and>
   (\<exists>b'. toggleCellAndNeighbors 1 1 demoBoard 3 = Inr b' \<and>
      length (changedCells 3 demoBoard b') = 5)"
proof -
  have wf: "wf_board 3 demoBoard" by (simp add: wf_board_def demoBoard_def)
  have g: "inGrid 3 0 2" "inGrid 3 0 1" "inGrid 3 1 1"
    "isCorner 3 0 2" "isEdge 3 0 1" "isInterior 3 1 1"
    by (simp_all add: inGrid_def isCorner_def isEdge_def isInterior_def)
  have corner: "\<exists>b'. toggleCellAndNeighbors 0 2 demoBoard 3 = Inr b' \<and>
      cellOn b' 1 1 = cellOn demoBoard 1 1 \<and> length (changedCells 3 demoBoard b') \<le> 3"
    using move_flips_plus[OF wf g(1)] g by fastforce
  have edge: "\<exists>b'. toggleCellAndNeighbors 0 1 demoBoard 3 = Inr b' \<and>
      length (changedCells 3 demoBoard b') \<le> 4"
    using move_flips_plus[OF wf g(2)] g by fastforce
  have inner: "\<exists>b'. toggleCellAndNeighbors 1 1 demoBoard 3 = Inr b' \<and>
      length (changedCells 3 demoBoard b') = 5"
    using move_flips_plus[OF wf g(3)] g by fastforce
  from wf g corner edge inner show ?thesis by simp
qed

section \<open>Facts about the generator\<close>

lemma scrambleAttempt_moves:
  assumes "1 \<le> n"
  shows "\<exists>b0 b. allOffBoard n = Inr b0 \<and>
           scrambleAttempt rnd k n d = Inr b \<and> wf_board n b \<and>
           applyMoves n (drawnMoves n rnd k (nat (scrambleMovesCount n d))) b0 = Inr b \<and>
           applyMoves n (drawnMoves n rnd k (nat (scrambleMovesCount n d))) b = Inr b0"
proof -
  let ?ms = "drawnMoves n rnd k (nat (scrambleMovesCount n d))"
  from assms allOffBoard_wf[of n] obtain b0 where
    b0: "allOffBoard n = Inr b0" "wf_board n b0" "\<forall>i j. inGrid n i j \<longrightarrow> \<not> cellOn b0 i j"
    by auto
  from applyMoves_wf[OF b0(2), of ?ms] obtain b where
    b: "applyMoves n ?ms b0 = Inr b" "wf_board n b"
      "\<forall>i j. inGrid n i j \<longrightarrow>
         cellOn b i j = (cellOn b0 i j \<noteq> odd (length (filter (\<lambda>(r, c). inPlus r c i j) ?ms)))"
    by blast
  from applyMoves_wf[OF b(2), of ?ms] obtain b' where
    b': "applyMoves n ?ms b = Inr b'" "wf_board n b'"
      "\<forall>i j. inGrid n i j \<longrightarrow>
         cellOn b' i j = (cellOn b i j \<noteq> odd (length (filter (\<lambda>(r, c). inPlus r c i j) ?ms)))"
    by blast
  have "b' = b0"
    by (rule board_eqI[OF b'(2) b0(2)]) (use b(3) b'(3) in auto)
  moreover have "scrambleAttempt rnd k n d = Inr b"
    by (simp add: scrambleAttempt_def b0(1) andThen_def scrambleLoop_eq b(1))
  ultimately show ?thesis using b0(1) b(1,2) b'(1) by blast
qed

lemma createSolvableBoard_result:
  assumes "1 \<le> n" and "createSolvableBoard fuel rnd k n d = Some res"
  shows "\<exists>k' b. res = Inr b \<and> scrambleAttempt rnd k' n d = Inr b \<and> \<not> allCellsOff b"
  using assms(2)
proof (induction fuel arbitrary: k)
  case 0
  then show ?case by simp
next
  case (Suc fuel)
  from scrambleAttempt_moves[OF assms(1), of rnd k d] obtain b where
    b: "scrambleAttempt rnd k n d = Inr b" by blast
  show ?case
  proof (cases "allCellsOff b")
    case True
    with Suc.prems b have
      "createSolvableBoard fuel rnd (k + 2 * nat (scrambleMovesCount n d)) n d = Some res"
      by simp
    from Suc.IH[OF this] show ?thesis .
  next
    case False
    with Suc.prems b have "res = Inr b" by simp
    with b False show ?thesis by blast
  qed
qed

text \<open>
  The generator returns as soon as one attempt does not cancel out: when the attempt
  number \<open>a\<close> ends on a board with a cell on, a recursion depth of \<open>a + 1\<close> is enough.
\<close>

lemma createSolvableBoard_returns:
  assumes "1 \<le> n"
    and "scrambleAttempt rnd (k + a * (2 * nat (scrambleMovesCount n d))) n d = Inr b"
    and "\<not> allCellsOff b"
  shows "\<exists>b'. createSolvableBoard (Suc a) rnd k n d = Some (Inr b')"
  using assms(2)
proof (induction a arbitrary: k)
  case 0
  with assms(3) show ?case by simp
next
  case (Suc a)
  from scrambleAttempt_moves[OF assms(1), of rnd k d] obtain b1 where
    b1: "scrambleAttempt rnd k n d = Inr b1" by blast
  show ?case
  proof (cases "allCellsOff b1")
    case False
    with b1 show ?thesis by simp
  next
    case True
    have "k + 2 * nat (scrambleMovesCount n d) + a * (2 * nat (scrambleMovesCount n d))
        = k + Suc a * (2 * nat (scrambleMovesCount n d))" by simp
    with Suc.prems have
      "scrambleAttempt rnd (k + 2 * nat (scrambleMovesCount n d) + a * (2 * nat (scrambleMovesCount n d))) n d = Inr b"
      by (simp only:)
    from Suc.IH[OF this] obtain b' where
      "createSolvableBoard (Suc a) rnd (k + 2 * nat (scrambleMovesCount n d)) n d = Some (Inr b')"
      by blast
    with True b1 show ?thesis by simp
  qed
qed

text \<open>
  For size 1 and medium difficulty the count is \<open>floor(2.5) = 2\<close>: both moves hit the only
  cell, every attempt cancels out, and the generator never returns.
\<close>

lemma createSolvableBoard_size1_medium:
  assumes "goodRandom rnd"
  shows "createSolvableBoard fuel rnd k 1 Medium = None"
proof (induction fuel arbitrary: k)
  case 0
  show ?case by simp
next
  case (Suc fuel)
  have idx: "randIndex (rnd j) 1 = 0" for j
    using randIndex_range[of "rnd j" 1] assms by (simp add: goodRandom_def)
  have m: "nat (scrambleMovesCount 1 Medium) = Suc (Suc 0)"
    by (simp add: scrambleMovesCount_div)
  have "scrambleAttempt rnd k 1 Medium = Inr [[\<lparr>isOn = False\<rparr>]]"
    by (simp add: scrambleAttempt_def m allOffBoard_def andThen_def idx scrambleToggle_def toggle_def)
  then show ?case using Suc.IH by (simp add: allCellsOff_def)
qed

lemma zeroDouble_unit: "isUnitDouble zeroDouble"
  by (simp add: isUnitDouble_def zeroDouble_def)

lemma halfDouble_unit: "isUnitDouble halfDouble"
  by (simp add: isUnitDouble_def halfDouble_def)

lemma zeroRandom_good: "goodRandom zeroRandom"
  by (simp add: goodRandom_def zeroRandom_def zeroDouble_unit)

lemma demoRandom_good: "goodRandom demoRandom"
  by (simp add: goodRandom_def demoRandom_def zeroDouble_unit halfDouble_unit)

lemma retryRandom_good: "goodRandom retryRandom"
  by (simp add: goodRandom_def retryRandom_def zeroDouble_unit halfDouble_unit)

lemma luckyRandom_good: "goodRandom (luckyRandom k)"
  by (simp add: goodRandom_def luckyRandom_def zeroDouble_unit halfDouble_unit)

lemma randIndex_zeroDouble: "0 \<le> n \<Longrightarrow> randIndex zeroDouble n = 0"
  by (simp add: randIndex_def zeroDouble_def roundNat53_def)

lemma randIndex_halfDouble:
  assumes "2 \<le> n"
  shows "1 \<le> randIndex halfDouble n \<and> randIndex halfDouble n < n"
proof -
  from assms have "1 * 2 ^ 1 \<le> mant halfDouble * nat n"
    by (simp add: halfDouble_def)
  then have "1 * 2 ^ 1 \<le> roundNat53 (mant halfDouble * nat n)"
    by (intro roundNat53_lower) simp_all
  then have "1 \<le> roundNat53 (mant halfDouble * nat n) div 2 ^ expo halfDouble"
    by (simp add: halfDouble_def less_eq_div_iff_mult_less_eq)
  then have "1 \<le> randIndex halfDouble n"
    using assms by (simp add: randIndex_nat)
  moreover have "randIndex halfDouble n < n"
    using randIndex_range[OF halfDouble_unit, of n] assms by simp
  ultimately show ?thesis by simp
qed

lemma randIndex_halfDouble_3: "randIndex halfDouble 3 = 1"
  by (simp add: randIndex_def halfDouble_def roundNat53_def)

text \<open>
  The double \<open>0.6666666666666666\<close> is below two thirds, yet its product with 3 rounds
  to 2: the draw is 2, not 1.
\<close>

lemma randIndex_two_thirds:
  "randIndex \<lparr>mant = 6004799503160661, expo = 53\<rparr> 3 = 2"
  by (simp add: randIndex_def roundNat53_def bitLength_numeral)

lemma drawnMoves_luckyRandom_tail:
  assumes "0 \<le> n" and "k + 2 \<le> j"
  shows "drawnMoves n (luckyRandom k) j m = replicate m (0, 0)"
  using assms(2)
proof (induction m arbitrary: j)
  case 0
  show ?case by simp
next
  case (Suc m)
  from Suc.prems have "luckyRandom k j = zeroDouble" "luckyRandom k (j + 1) = zeroDouble"
    by (simp_all add: luckyRandom_def)
  moreover from Suc.prems have "k + 2 \<le> j + 2" by simp
  ultimately show ?case
    using Suc.IH[of "j + 2"] assms(1) by (simp add: randIndex_zeroDouble)
qed

lemma drawnMoves_luckyRandom:
  assumes "0 \<le> n"
  shows "drawnMoves n (luckyRandom k) k (Suc m) =
           (0, randIndex halfDouble n) # replicate m (0, 0)"
  using assms drawnMoves_luckyRandom_tail[OF assms, of k "k + 2" m]
  by (simp add: luckyRandom_def randIndex_zeroDouble)

lemma scrambleMovesCount_pos:
  assumes "1 \<le> n"
  shows "1 \<le> scrambleMovesCount n d"
proof (cases d)
  case Easy
  with assms show ?thesis by (simp add: scrambleMovesCount_div)
next
  case Medium
  with assms show ?thesis by (simp add: scrambleMovesCount_div)
next
  case Hard
  from assms have "1 * 1 \<le> n * n" by (intro mult_mono) simp_all
  with Hard show ?thesis by (simp add: scrambleMovesCount_div)
qed

text \<open>
  Unless the size is 1 and the difficulty medium, the attempt that \<open>luckyRandom k\<close>
  drives from the \<open>k\<close>-th draw on leaves a cell on.
\<close>

lemma luckyRandom_attempt:
  assumes "1 \<le> n" and "\<not> (n = 1 \<and> d = Medium)"
  shows "\<exists>b. scrambleAttempt (luckyRandom k) k n d = Inr b \<and> \<not> allCellsOff b"
proof -
  define c where "c = randIndex halfDouble n"
  from scrambleMovesCount_pos[OF assms(1), of d] obtain m where
    m: "nat (scrambleMovesCount n d) = Suc m"
    by (cases "nat (scrambleMovesCount n d)") simp_all
  let ?ms = "(0, c) # replicate m (0, 0)"
  from assms(1) have n0: "0 \<le> n" by simp
  have ms: "drawnMoves n (luckyRandom k) k (nat (scrambleMovesCount n d)) = ?ms"
    unfolding m c_def by (rule drawnMoves_luckyRandom[OF n0])
  from assms(1) allOffBoard_wf[of n] obtain b0 where
    b0: "allOffBoard n = Inr b0" "wf_board n b0" "\<forall>i j. inGrid n i j \<longrightarrow> \<not> cellOn b0 i j"
    by auto
  from applyMoves_wf[OF b0(2), of ?ms] obtain b where
    b: "applyMoves n ?ms b0 = Inr b" "wf_board n b"
      "\<forall>i j. inGrid n i j \<longrightarrow>
         cellOn b i j = (cellOn b0 i j \<noteq> odd (length (filter (\<lambda>(r, c). inPlus r c i j) ?ms)))"
    by blast
  have att: "scrambleAttempt (luckyRandom k) k n d = Inr b"
    by (simp only: scrambleAttempt_def b0(1) andThen_def sum.case scrambleLoop_eq ms b(1))
  have cell: "cellOn b i j =
      odd ((if inPlus 0 c i j then 1 else 0) + (if inPlus 0 0 i j then m else 0))"
    if "inGrid n i j" for i j
    using b(3) b0(3) that by (simp add: filter_replicate)
  have "\<exists>i j. inGrid n i j \<and> cellOn b i j"
  proof (cases "n = 1")
    case True
    with assms(2) have "d = Easy \<or> d = Hard" by (cases d) simp_all
    with True m have m0: "m = 0" by (auto simp: scrambleMovesCount_div)
    from True randIndex_range[OF halfDouble_unit, of 1] have c0: "c = 0"
      by (simp add: c_def)
    from True have g: "inGrid n 0 0" by (simp add: inGrid_def)
    from cell[OF g] have "cellOn b 0 0" by (simp add: m0 c0 inPlus_def)
    with g show ?thesis by blast
  next
    case False
    with assms(1) have n2: "2 \<le> n" by simp
    from randIndex_halfDouble[OF n2] have c: "1 \<le> c" "c < n" by (simp_all add: c_def)
    show ?thesis
    proof (cases "even m")
      case True
      from c n2 have g: "inGrid n 0 c" by (simp add: inGrid_def)
      from cell[OF g] True have "cellOn b 0 c" by (simp add: inPlus_def)
      with g show ?thesis by blast
    next
      case False
      from n2 have g: "inGrid n 1 0" by (simp add: inGrid_def)
      from cell[OF g] False c(1) have "cellOn b 1 0" by (simp add: inPlus_def)
      with g show ?thesis by blast
    qed
  qed
  then have "\<not> allCellsOff b" by (simp add: allCellsOff_iff[OF b(2)])
  with att show ?thesis by blast
qed

lemma luckyRandom_returns:
  assumes "1 \<le> n" and "\<not> (n = 1 \<and> d = Medium)"
  shows "\<exists>b. createSolvableBoard (Suc 0) (luckyRandom k) k n d = Some (Inr b)"
  using luckyRandom_attempt[OF assms, of k] by auto

text \<open>Concrete runs of the generator at size 3, easy: four moves in each attempt.\<close>

lemma easy3_count: "nat (scrambleMovesCount 3 Easy) = Suc (Suc (Suc (Suc 0)))"
  by (simp add: scrambleMovesCount_div)

lemma demoRandom_run:
  "createSolvableBoard (Suc 0) demoRandom 0 3 Easy =
     Some (Inr [[\<lparr>isOn = False\<rparr>, \<lparr>isOn = True\<rparr>, \<lparr>isOn = False\<rparr>],
                [\<lparr>isOn = False\<rparr>, \<lparr>isOn = True\<rparr>, \<lparr>isOn = False\<rparr>],
                [\<lparr>isOn = True\<rparr>, \<lparr>isOn = False\<rparr>, \<lparr>isOn = False\<rparr>]])"
  by (simp add: scrambleAttempt_def allOffBoard_def easy3_count andThen_def demoRandom_def
      randIndex_halfDouble_3 randIndex_zeroDouble scrambleToggle_def toggle_def allCellsOff_def
      numeral_3_eq_3)

lemma retryRandom_attempt:
  "scrambleAttempt retryRandom 0 3 Easy = Inr (replicate 3 (replicate 3 \<lparr>isOn = False\<rparr>))"
  by (simp add: scrambleAttempt_def allOffBoard_def easy3_count andThen_def retryRandom_def
      randIndex_zeroDouble scrambleToggle_def toggle_def numeral_3_eq_3)

lemma retryRandom_run:
  "createSolvableBoard (Suc 0) retryRandom 8 3 Easy =
     Some (Inr [[\<lparr>isOn = False\<rparr>, \<lparr>isOn = True\<rparr>, \<lparr>isOn = False\<rparr>],
                [\<lparr>isOn = False\<rparr>, \<lparr>isOn = True\<rparr>, \<lparr>isOn = False\<rparr>],
                [\<lparr>isOn = True\<rparr>, \<lparr>isOn = False\<rparr>, \<lparr>isOn = False\<rparr>]])"
  by (simp add: scrambleAttempt_def allOffBoard_def easy3_count andThen_def retryRandom_def
      randIndex_halfDouble_3 randIndex_zeroDouble scrambleToggle_def toggle_def allCellsOff_def
      numeral_3_eq_3)

lemma wf_board_some_on:
  assumes "wf_board n b" and "\<not> allCellsOff b"
  shows "\<exists>i j. inGrid n i j \<and> cellOn b i j"
  using assms allCellsOff_iff[OF assms(1)] by blast

section \<open>Properties of the generator\<close>

text \<open>
  Claim C1, as stated, fails at size 1 with medium difficulty: the count is
  \<open>floor(2.5) = 2\<close>, both moves flip the only cell, every attempt ends on the all-off
  board, and the generator calls itself without end. It returns no board, whatever the
  depth of recursion and wherever it starts to read the random source.
\<close>

theorem generator_size1_medium_no_board:
  "scrambleMovesCount 1 Medium = 2 \<and>
   scrambleAttempt zeroRandom 0 1 Medium = Inr [[\<lparr>isOn = False\<rparr>]] \<and>
   allCellsOff [[\<lparr>isOn = False\<rparr>]] \<and>
   (\<forall>fuel k. createSolvableBoard fuel zeroRandom k 1 Medium = None)"
proof -
  have c: "scrambleMovesCount 1 Medium = 2" by (simp add: scrambleMovesCount_div)
  then have m: "nat (scrambleMovesCount 1 Medium) = Suc (Suc 0)" by simp
  have att: "scrambleAttempt zeroRandom 0 1 Medium = Inr [[\<lparr>isOn = False\<rparr>]]"
    by (simp add: scrambleAttempt_def m allOffBoard_def andThen_def zeroRandom_def
        randIndex_zeroDouble scrambleToggle_def toggle_def)
  have off: "allCellsOff [[\<lparr>isOn = False\<rparr>]]" by (simp add: allCellsOff_def)
  have "\<forall>fuel k. createSolvableBoard fuel zeroRandom k 1 Medium = None"
    using createSolvableBoard_size1_medium[OF zeroRandom_good] by blast
  with c att off show ?thesis by blast
qed

text \<open>
  Claim C1, amended. For \<open>n \<ge> 1\<close> and every difficulty, a board that the generator
  returns is reached from the all-off board of size \<open>n\<close> by a finite sequence of moves at
  coordinates inside the grid, and the same sequence leads from it back to the all-off
  board: the puzzle is solvable. The generator throws nothing, and it returns a board as
  soon as one attempt does not cancel out. Unless the size is 1 and the difficulty
  medium, there are draws, from any point of the random source on, for which the next
  attempt does not cancel out and the generator returns at once. At size 1 with medium
  difficulty it returns no board.
\<close>

theorem generator_solvable:
  assumes "1 \<le> n" and "goodRandom rnd"
  shows "(\<forall>res. createSolvableBoard fuel rnd k n d = Some res \<longrightarrow>
            (\<exists>b b0 ms. res = Inr b \<and> allOffBoard n = Inr b0 \<and> allCellsOff b0 \<and>
               list_all (\<lambda>(i, j). inGrid n i j) ms \<and>
               applyMoves n ms b0 = Inr b \<and> applyMoves n ms b = Inr b0))
       \<and> (\<forall>a b. scrambleAttempt rnd (k + a * (2 * nat (scrambleMovesCount n d))) n d = Inr b \<and>
             \<not> allCellsOff b \<longrightarrow>
             (\<exists>b'. createSolvableBoard (Suc a) rnd k n d = Some (Inr b')))
       \<and> (\<not> (n = 1 \<and> d = Medium) \<longrightarrow>
             goodRandom (luckyRandom k) \<and>
             (\<exists>b. createSolvableBoard (Suc 0) (luckyRandom k) k n d = Some (Inr b)))
       \<and> (n = 1 \<and> d = Medium \<longrightarrow> createSolvableBoard fuel rnd k n d = None)"
proof (intro conjI allI impI)
  fix res assume ret: "createSolvableBoard fuel rnd k n d = Some res"
  from createSolvableBoard_result[OF assms(1) ret] obtain k' b where
    b: "res = Inr b" "scrambleAttempt rnd k' n d = Inr b"
    by blast
  let ?ms = "drawnMoves n rnd k' (nat (scrambleMovesCount n d))"
  from scrambleAttempt_moves[OF assms(1), of rnd k' d] b(2) obtain b0 where
    b0: "allOffBoard n = Inr b0" "applyMoves n ?ms b0 = Inr b" "applyMoves n ?ms b = Inr b0"
    by auto
  from assms(1) b0(1) allOffBoard_wf[of n] have "wf_board n b0"
    and "\<forall>i j. inGrid n i j \<longrightarrow> \<not> cellOn b0 i j" by auto
  then have "allCellsOff b0" by (simp add: allCellsOff_iff)
  moreover have "list_all (\<lambda>(i, j). inGrid n i j) ?ms"
    by (rule drawnMoves_inGrid[OF assms(2,1)])
  ultimately show "\<exists>b b0 ms. res = Inr b \<and> allOffBoard n = Inr b0 \<and> allCellsOff b0 \<and>
               list_all (\<lambda>(i, j). inGrid n i j) ms \<and>
               applyMoves n ms b0 = Inr b \<and> applyMoves n ms b = Inr b0"
    using b(1) b0 by blast
next
  fix a b
  assume "scrambleAttempt rnd (k + a * (2 * nat (scrambleMovesCount n d))) n d = Inr b \<and>
             \<not> allCellsOff b"
  then show "\<exists>b'. createSolvableBoard (Suc a) rnd k n d = Some (Inr b')"
    using createSolvableBoard_returns[OF assms(1)] by blast
next
  show "goodRandom (luckyRandom k)" by (rule luckyRandom_good)
next
  assume "\<not> (n = 1 \<and> d = Medium)"
  from luckyRandom_returns[OF assms(1) this]
  show "\<exists>b. createSolvableBoard (Suc 0) (luckyRandom k) k n d = Some (Inr b)" .
next
  assume "n = 1 \<and> d = Medium"
  then show "createSolvableBoard fuel rnd k n d = None"
    using createSolvableBoard_size1_medium[OF assms(2)] by simp
qed

theorem generator_solvable_witness:
  "(1::int) \<le> 3 \<and> goodRandom demoRandom \<and> \<not> ((3::int) = 1 \<and> Easy = Medium) \<and>
   createSolvableBoard (Suc 0) demoRandom 0 3 Easy =
     Some (Inr [[\<lparr>isOn = False\<rparr>, \<lparr>isOn = True\<rparr>, \<lparr>isOn = False\<rparr>],
                [\<lparr>isOn = False\<rparr>, \<lparr>isOn = True\<rparr>, \<lparr>isOn = False\<rparr>],
                [\<lparr>isOn = True\<rparr>, \<lparr>isOn = False\<rparr>, \<lparr>isOn = False\<rparr>]]) \<and>
   (\<exists>b b0 ms. createSolvableBoard (Suc 0) demoRandom 0 3 Easy = Some (Inr b) \<and>
      allOffBoard 3 = Inr b0 \<and> allCellsOff b0 \<and>
      list_all (\<lambda>(i, j). inGrid 3 i j) ms \<and>
      applyMoves 3 ms b0 = Inr b \<and> applyMoves 3 ms b = Inr b0) \<and>
   (\<exists>b. createSolvableBoard (Suc 0) (luckyRandom 8) 8 3 Easy = Some (Inr b)) \<and>
   createSolvableBoard 7 demoRandom 0 1 Medium = None"
proof -
  have n: "(1::int) \<le> 3" by simp
  from generator_solvable[OF n demoRandom_good, where fuel = "Suc 0" and k = 0 and d = Easy]
    demoRandom_run
  have solv: "\<exists>b b0 ms. createSolvableBoard (Suc 0) demoRandom 0 3 Easy = Some (Inr b) \<and>
      allOffBoard 3 = Inr b0 \<and> allCellsOff b0 \<and>
      list_all (\<lambda>(i, j). inGrid 3 i j) ms \<and>
      applyMoves 3 ms b0 = Inr b \<and> applyMoves 3 ms b = Inr b0"
    by auto
  from generator_solvable[OF n demoRandom_good, where fuel = "Suc 0" and k = 8 and d = Easy]
  have lucky: "\<exists>b. createSolvableBoard (Suc 0) (luckyRandom 8) 8 3 Easy = Some (Inr b)"
    by simp
  have one: "(1::int) \<le> 1" by simp
  from generator_solvable[OF one demoRandom_good, where fuel = 7 and k = 0 and d = Medium]
  have none: "createSolvableBoard 7 demoRandom 0 1 Medium = None"
    by simp
  from n demoRandom_good demoRandom_run solv lucky none show ?thesis by simp
qed

text \<open>
  Claim C6. For \<open>n \<ge> 1\<close> and every difficulty, a board that the generator returns has
  a cell that is on. An attempt that ends on the all-off board is dropped, and the
  generator runs again with the same size and difficulty; it returns a board as soon as
  one attempt does not cancel out.
\<close>

theorem generator_not_all_off:
  assumes "1 \<le> n"
  shows "(\<forall>res. createSolvableBoard fuel rnd k n d = Some res \<longrightarrow>
            (\<exists>b. res = Inr b \<and> wf_board n b \<and> \<not> allCellsOff b \<and>
                 (\<exists>i j. inGrid n i j \<and> cellOn b i j)))
       \<and> (\<forall>b. scrambleAttempt rnd k n d = Inr b \<and> allCellsOff b \<longrightarrow>
            createSolvableBoard (Suc fuel) rnd k n d =
            createSolvableBoard fuel rnd (k + 2 * nat (scrambleMovesCount n d)) n d)
       \<and> (\<forall>a b. scrambleAttempt rnd (k + a * (2 * nat (scrambleMovesCount n d))) n d = Inr b \<and>
             \<not> allCellsOff b \<longrightarrow>
             (\<exists>b'. createSolvableBoard (Suc a) rnd k n d = Some (Inr b')))"
proof (intro conjI allI impI)
  fix res assume "createSolvableBoard fuel rnd k n d = Some res"
  from createSolvableBoard_result[OF assms this] obtain k' b where
    b: "res = Inr b" "scrambleAttempt rnd k' n d = Inr b" "\<not> allCellsOff b"
    by blast
  from scrambleAttempt_moves[OF assms, of rnd k' d] b(2) have wf: "wf_board n b" by auto
  from wf_board_some_on[OF wf b(3)] b(1,3) wf
  show "\<exists>b. res = Inr b \<and> wf_board n b \<and> \<not> allCellsOff b \<and>
                 (\<exists>i j. inGrid n i j \<and> cellOn b i j)" by blast
next
  fix b assume "scrambleAttempt rnd k n d = Inr b \<and> allCellsOff b"
  then show "createSolvableBoard (Suc fuel) rnd k n d =
            createSolvableBoard fuel rnd (k + 2 * nat (scrambleMovesCount n d)) n d"
    by simp
next
  fix a b
  assume "scrambleAttempt rnd (k + a * (2 * nat (scrambleMovesCount n d))) n d = Inr b \<and>
             \<not> allCellsOff b"
  then show "\<exists>b'. createSolvableBoard (Suc a) rnd k n d = Some (Inr b')"
    using createSolvableBoard_returns[OF assms] by blast
qed

theorem generator_not_all_off_witness:
  "(1::int) \<le> 3 \<and>
   scrambleAttempt retryRandom 0 3 Easy = Inr (replicate 3 (replicate 3 \<lparr>isOn = False\<rparr>)) \<and>
   allCellsOff (replicate 3 (replicate 3 \<lparr>isOn = False\<rparr>)) \<and>
   createSolvableBoard (Suc (Suc 0)) retryRandom 0 3 Easy =
     createSolvableBoard (Suc 0) retryRandom 8 3 Easy \<and>
   createSolvableBoard (Suc 0) retryRandom 8 3 Easy =
     Some (Inr [[\<lparr>isOn = False\<rparr>, \<lparr>isOn = True\<rparr>, \<lparr>isOn = False\<rparr>],
                [\<lparr>isOn = False\<rparr>, \<lparr>isOn = True\<rparr>, \<lparr>isOn = False\<rparr>],
                [\<lparr>isOn = True\<rparr>, \<lparr>isOn = False\<rparr>, \<lparr>isOn = False\<rparr>]]) \<and>
   (\<exists>b. createSolvableBoard (Suc 0) retryRandom 8 3 Easy = Some (Inr b) \<and> wf_board 3 b \<and>
      \<not> allCellsOff b \<and> (\<exists>i j. inGrid 3 i j \<and> cellOn b i j))"
proof -
  have n: "(1::int) \<le> 3" by simp
  have att: "scrambleAttempt retryRandom 0 3 Easy = Inr (replicate 3 (replicate 3 \<lparr>isOn = False\<rparr>))"
    by (rule retryRandom_attempt)
  have off: "allCellsOff (replicate 3 (replicate 3 \<lparr>isOn = False\<rparr>))"
    by (simp add: allCellsOff_def list_all_iff)
  have m: "2 * nat (scrambleMovesCount 3 Easy) = 8"
    by (simp add: scrambleMovesCount_div)
  have run: "createSolvableBoard (Suc 0) retryRandom 8 3 Easy =
     Some (Inr [[\<lparr>isOn = False\<rparr>, \<lparr>isOn = True\<rparr>, \<lparr>isOn = False\<rparr>],
                [\<lparr>isOn = False\<rparr>, \<lparr>isOn = True\<rparr>, \<lparr>isOn = False\<rparr>],
                [\<lparr>isOn = True\<rparr>, \<lparr>isOn = False\<rparr>, \<lparr>isOn = False\<rparr>]])"
    by (rule retryRandom_run)
  from generator_not_all_off[OF n, where fuel = "Suc 0" and rnd = retryRandom and k = 8 and d = Easy] run
  have res: "\<exists>b. createSolvableBoard (Suc 0) retryRandom 8 3 Easy = Some (Inr b) \<and> wf_board 3 b \<and>
      \<not> allCellsOff b \<and> (\<exists>i j. inGrid 3 i j \<and> cellOn b i j)"
    by auto
  from generator_not_all_off[OF n, where fuel = "Suc 0" and rnd = retryRandom and k = 0 and d = Easy] att off m
  have retry: "createSolvableBoard (Suc (Suc 0)) retryRandom 0 3 Easy =
     createSolvableBoard (Suc 0) retryRandom 8 3 Easy"
    by auto
  from n att off retry run res show ?thesis by blast
qed

text \<open>
  Claim C7. For \<open>n \<ge> 1\<close> an attempt starts from the all-off board of size \<open>n\<close> and
  applies exactly \<open>M\<close> moves, where \<open>M\<close> is \<open>floor(1.5 n)\<close> for easy, \<open>floor(2.5 n)\<close> for
  medium and \<open>n\<^sup>2\<close> for hard. Every board that the generator returns is the outcome of
  such an attempt. The row and the column of each move are \<open>Math.floor\<close> of the product
  of the size with two successive random numbers, and they lie inside the grid. The
  draw is uniform in this sense: a random number \<open>u\<close> gives the index \<open>i\<close> when
  \<open>i / n \<le> u < (i + 1) / n\<close>, the \<open>n\<close> intervals having the same length, with the
  ends of the intervals blurred by no more than the rounding of the product, a factor
  \<open>1 + 2\<^sup>-\<^sup>5\<^sup>3\<close>; and every index from \<open>0\<close> to \<open>n - 1\<close> is drawn by some double.
\<close>

theorem generator_attempt:
  assumes "1 \<le> n" and "goodRandom rnd"
  shows "scrambleMovesCount n Easy = \<lfloor>1.5 * real_of_int n\<rfloor> \<and>
         scrambleMovesCount n Medium = \<lfloor>2.5 * real_of_int n\<rfloor> \<and>
         scrambleMovesCount n Hard = n\<^sup>2 \<and>
         int (length (drawnMoves n rnd k (nat (scrambleMovesCount n d)))) = scrambleMovesCount n d \<and>
         list_all (\<lambda>(i, j). inGrid n i j) (drawnMoves n rnd k (nat (scrambleMovesCount n d))) \<and>
         (\<exists>b0. allOffBoard n = Inr b0 \<and> wf_board n b0 \<and> allCellsOff b0 \<and>
            scrambleAttempt rnd k n d =
              applyMoves n (drawnMoves n rnd k (nat (scrambleMovesCount n d))) b0) \<and>
         (\<forall>res. createSolvableBoard fuel rnd k n d = Some res \<longrightarrow>
            (\<exists>k'. res = scrambleAttempt rnd k' n d)) \<and>
         (\<forall>t < nat (scrambleMovesCount n d).
            drawnMoves n rnd k (nat (scrambleMovesCount n d)) ! t =
              (randIndex (rnd (k + 2 * t)) n, randIndex (rnd (k + 2 * t + 1)) n)) \<and>
         (\<forall>u i. isUnitDouble u \<and> n < 2 ^ 53 \<and> 0 \<le> i \<and> i < n \<longrightarrow>
            (real_of_int i \<le> unitValue u * real_of_int n \<and>
             unitValue u * real_of_int n * (1 + 1 / 2 ^ 53) < real_of_int i + 1 \<longrightarrow>
               randIndex u n = i) \<and>
            (randIndex u n = i \<longrightarrow>
               real_of_int i \<le> unitValue u * real_of_int n * (1 + 1 / 2 ^ 53) \<and>
               unitValue u * real_of_int n < real_of_int i + 1)) \<and>
         (\<forall>i. 0 \<le> i \<and> i < n \<and> n \<le> 2 ^ 52 \<longrightarrow>
            isUnitDouble (midDouble i n) \<and> randIndex (midDouble i n) n = i)"
proof -
  have counts: "scrambleMovesCount n Easy = \<lfloor>1.5 * real_of_int n\<rfloor>"
    "scrambleMovesCount n Medium = \<lfloor>2.5 * real_of_int n\<rfloor>"
    "scrambleMovesCount n Hard = n\<^sup>2"
    by (simp_all add: scrambleMovesCount_def mult.commute power2_eq_square)
  have nonneg: "0 \<le> scrambleMovesCount n d"
    using scrambleMovesCount_pos[OF assms(1), of d] by simp
  then have len: "int (length (drawnMoves n rnd k (nat (scrambleMovesCount n d)))) =
      scrambleMovesCount n d"
    by (simp add: drawnMoves_length)
  have inside: "list_all (\<lambda>(i, j). inGrid n i j) (drawnMoves n rnd k (nat (scrambleMovesCount n d)))"
    by (rule drawnMoves_inGrid[OF assms(2,1)])
  from assms(1) allOffBoard_wf[of n] obtain b0 where
    b0: "allOffBoard n = Inr b0" "wf_board n b0" "\<forall>i j. inGrid n i j \<longrightarrow> \<not> cellOn b0 i j"
    by auto
  then have off: "allCellsOff b0" by (simp add: allCellsOff_iff)
  have att: "scrambleAttempt rnd k n d =
      applyMoves n (drawnMoves n rnd k (nat (scrambleMovesCount n d))) b0"
    by (simp add: scrambleAttempt_def b0(1) andThen_def scrambleLoop_eq)
  have start: "\<exists>b0. allOffBoard n = Inr b0 \<and> wf_board n b0 \<and> allCellsOff b0 \<and>
            scrambleAttempt rnd k n d =
              applyMoves n (drawnMoves n rnd k (nat (scrambleMovesCount n d))) b0"
    using b0(1,2) off att by blast
  have ret: "\<forall>res. createSolvableBoard fuel rnd k n d = Some res \<longrightarrow>
            (\<exists>k'. res = scrambleAttempt rnd k' n d)"
    using createSolvableBoard_result[OF assms(1)] by metis
  have draws: "\<forall>t < nat (scrambleMovesCount n d).
            drawnMoves n rnd k (nat (scrambleMovesCount n d)) ! t =
              (randIndex (rnd (k + 2 * t)) n, randIndex (rnd (k + 2 * t + 1)) n)"
    by (simp add: drawnMoves_nth)
  have uniform: "\<forall>u i. isUnitDouble u \<and> n < 2 ^ 53 \<and> 0 \<le> i \<and> i < n \<longrightarrow>
            (real_of_int i \<le> unitValue u * real_of_int n \<and>
             unitValue u * real_of_int n * (1 + 1 / 2 ^ 53) < real_of_int i + 1 \<longrightarrow>
               randIndex u n = i) \<and>
            (randIndex u n = i \<longrightarrow>
               real_of_int i \<le> unitValue u * real_of_int n * (1 + 1 / 2 ^ 53) \<and>
               unitValue u * real_of_int n < real_of_int i + 1)"
  proof (intro allI impI)
    fix u i
    assume h: "isUnitDouble u \<and> n < 2 ^ 53 \<and> 0 \<le> i \<and> i < n"
    from assms(1) have n0: "0 \<le> n" by simp
    from h have i0: "0 \<le> i" and i1: "i + 1 < 2 ^ 53" by simp_all
    from randIndex_interval[OF n0 i0 i1, of u]
    show "(real_of_int i \<le> unitValue u * real_of_int n \<and>
             unitValue u * real_of_int n * (1 + 1 / 2 ^ 53) < real_of_int i + 1 \<longrightarrow>
               randIndex u n = i) \<and>
            (randIndex u n = i \<longrightarrow>
               real_of_int i \<le> unitValue u * real_of_int n * (1 + 1 / 2 ^ 53) \<and>
               unitValue u * real_of_int n < real_of_int i + 1)"
      by blast
  qed
  have onto: "\<forall>i. 0 \<le> i \<and> i < n \<and> n \<le> 2 ^ 52 \<longrightarrow>
            isUnitDouble (midDouble i n) \<and> randIndex (midDouble i n) n = i"
    using midDouble_draws by blast
  from counts len inside start ret draws uniform onto show ?thesis by blast
qed

theorem generator_attempt_witness:
  "(1::int) \<le> 3 \<and> goodRandom demoRandom \<and>
   scrambleMovesCount 3 Easy = 4 \<and> scrambleMovesCount 3 Medium = 7 \<and>
   scrambleMovesCount 3 Hard = 9 \<and>
   drawnMoves 3 demoRandom 0 (nat (scrambleMovesCount 3 Easy)) = [(1, 0), (0, 0), (0, 0), (0, 0)] \<and>
   (\<exists>k'. createSolvableBoard (Suc 0) demoRandom 0 3 Easy =
      Some (scrambleAttempt demoRandom k' 3 Easy)) \<and>
   isUnitDouble halfDouble \<and> (3::int) < 2 ^ 53 \<and> (0::int) \<le> 1 \<and> (1::int) < 3 \<and>
   real_of_int 1 \<le> unitValue halfDouble * real_of_int 3 \<and>
   unitValue halfDouble * real_of_int 3 * (1 + 1 / 2 ^ 53) < real_of_int 1 + 1 \<and>
   randIndex halfDouble 3 = 1 \<and>
   (0::int) \<le> 2 \<and> (2::int) < 3 \<and> (3::int) \<le> 2 ^ 52 \<and>
   isUnitDouble (midDouble 2 3) \<and> randIndex (midDouble 2 3) 3 = 2"
proof -
  have n: "(1::int) \<le> 3" by simp
  have c: "scrambleMovesCount 3 Easy = 4" "scrambleMovesCount 3 Medium = 7"
    "scrambleMovesCount 3 Hard = 9"
    by (simp_all add: scrambleMovesCount_div)
  have dm: "drawnMoves 3 demoRandom 0 (nat (scrambleMovesCount 3 Easy)) = [(1, 0), (0, 0), (0, 0), (0, 0)]"
    by (simp add: easy3_count demoRandom_def randIndex_halfDouble_3 randIndex_zeroDouble)
  have lo: "real_of_int 1 \<le> unitValue halfDouble * real_of_int 3"
    by (simp add: unitValue_def halfDouble_def)
  have hi: "unitValue halfDouble * real_of_int 3 * (1 + 1 / 2 ^ 53) < real_of_int 1 + 1"
    by (simp add: unitValue_def halfDouble_def)
  have side: "(3::int) < 2 ^ 53" "(0::int) \<le> 1" "(1::int) < 3"
    "(0::int) \<le> 2" "(2::int) < 3" "(3::int) \<le> 2 ^ 52"
    by simp_all
  from generator_attempt[OF n demoRandom_good, where fuel = "Suc 0" and k = 0 and d = Easy]
  have ret: "\<forall>res. createSolvableBoard (Suc 0) demoRandom 0 3 Easy = Some res \<longrightarrow>
      (\<exists>k'. res = scrambleAttempt demoRandom k' 3 Easy)"
    and uni: "\<forall>u i. isUnitDouble u \<and> (3::int) < 2 ^ 53 \<and> 0 \<le> i \<and> i < 3 \<longrightarrow>
      (real_of_int i \<le> unitValue u * real_of_int 3 \<and>
       unitValue u * real_of_int 3 * (1 + 1 / 2 ^ 53) < real_of_int i + 1 \<longrightarrow>
         randIndex u 3 = i) \<and>
      (randIndex u 3 = i \<longrightarrow>
         real_of_int i \<le> unitValue u * real_of_int 3 * (1 + 1 / 2 ^ 53) \<and>
         unitValue u * real_of_int 3 < real_of_int i + 1)"
    and onto: "\<forall>i. 0 \<le> i \<and> i < 3 \<and> (3::int) \<le> 2 ^ 52 \<longrightarrow>
      isUnitDouble (midDouble i 3) \<and> randIndex (midDouble i 3) 3 = i"
    by blast+
  from ret demoRandom_run
  have r: "\<exists>k'. createSolvableBoard (Suc 0) demoRandom 0 3 Easy =
      Some (scrambleAttempt demoRandom k' 3 Easy)"
    by (metis option.inject)
  from uni halfDouble_unit side lo hi have h: "randIndex halfDouble 3 = 1" by blast
  from onto side have m: "isUnitDouble (midDouble 2 3) \<and> randIndex (midDouble 2 3) 3 = 2"
    by blast
  from n demoRandom_good c dm r halfDouble_unit side lo hi h m show ?thesis by blast
qed

section \<open>Facts about the click handler\<close>

lemma readIsOn_inGrid:
  assumes "wf_board n b" and "inGrid n i j"
  shows "readIsOn b i j = Inr (cellOn b i j)"
  using assms by (auto simp: readIsOn_def cellOn_def inGrid_def wf_board_def list_all_length)

lemma readIsOn_outside:
  assumes "wf_board n b" and "\<not> inGrid n i j"
  shows "readIsOn b i j = Inl TypeError"
  using assms by (auto simp: readIsOn_def inGrid_def wf_board_def list_all_length)

lemma getActiveNeighbors_inGrid:
  assumes "wf_board n b" and "inGrid n r c"
  shows "\<exists>count. getActiveNeighbors r c b n = Inr count"
proof -
  have up: "r > 0 \<Longrightarrow> inGrid n (r - 1) c" and down: "r < n - 1 \<Longrightarrow> inGrid n (r + 1) c"
    and left: "c > 0 \<Longrightarrow> inGrid n r (c - 1)" and right: "c < n - 1 \<Longrightarrow> inGrid n r (c + 1)"
    using assms(2) by (auto simp: inGrid_def)
  have step: "\<exists>k'. countIfOn g b i j k = Inr k'" if "g \<Longrightarrow> inGrid n i j" for g i j k
    using that readIsOn_inGrid[OF assms(1), of i j] by (auto simp: countIfOn_def andThen_def)
  from step[of "r > 0" "r - 1" c 0] up obtain n1 where
    n1: "countIfOn (r > 0) b (r - 1) c 0 = Inr n1" by blast
  from step[of "r < n - 1" "r + 1" c n1] down obtain n2 where
    n2: "countIfOn (r < n - 1) b (r + 1) c n1 = Inr n2" by blast
  from step[of "c > 0" r "c - 1" n2] left obtain n3 where
    n3: "countIfOn (c > 0) b r (c - 1) n2 = Inr n3" by blast
  from step[of "c < n - 1" r "c + 1" n3] right obtain n4 where
    n4: "countIfOn (c < n - 1) b r (c + 1) n3 = Inr n4" by blast
  show ?thesis by (simp add: getActiveNeighbors_def andThen_def n1 n2 n3 n4)
qed

lemma playSoundClick_inGrid:
  assumes "wf_board n b" and "inGrid n r c"
  shows "playSoundClick ctx enabled interactive b r c n = Inr ()"
  using getActiveNeighbors_inGrid[OF assms] by (auto simp: playSoundClick_def andThen_def)

lemma getActiveNeighbors_outside:
  assumes "wf_board n b" and "\<not> inGrid n r c" and "2 \<le> n"
  shows "getActiveNeighbors r c b n = Inl TypeError"
proof -
  have rd: "readIsOn b i j = (if inGrid n i j then Inr (cellOn b i j) else Inl TypeError)" for i j
    using readIsOn_inGrid[OF assms(1)] readIsOn_outside[OF assms(1)] by simp
  show ?thesis
    using assms(2,3)
    by (auto simp: getActiveNeighbors_def countIfOn_def andThen_def rd inGrid_def)
qed

section \<open>Properties of the click handler\<close>

text \<open>
  Claim C5. In a game that is not won, a click on a cell inside the grid yields the state
  whose board is the result of the move at that cell, whose move counter is one more than
  before, and whose won flag says whether every cell of the new board is off.
\<close>

theorem click_in_bounds:
  assumes "\<not> hasWon s" and "wf_board (boardSize s) (board s)"
    and "inGrid (boardSize s) row col"
  shows "\<exists>b'. toggleCellAndNeighbors row col (board s) (boardSize s) = Inr b' \<and>
           handleCellClick s row col =
             Inr (s\<lparr>moves := moves s + 1, lastClick := Some (row, col), board := b',
                    hasWon := allCellsOff b'\<rparr>) \<and>
           (allCellsOff b' \<longleftrightarrow> (\<forall>i j. inGrid (boardSize s) i j \<longrightarrow> \<not> cellOn b' i j))"
proof -
  from toggleCellAndNeighbors_wf[OF assms(2), of row col] obtain b' where
    b': "toggleCellAndNeighbors row col (board s) (boardSize s) = Inr b'"
      "wf_board (boardSize s) b'" by blast
  have snd: "playSoundClick (audioCtx s) (soundEnabled s) (interactiveSound s)
      b' row col (boardSize s) = Inr ()"
    by (rule playSoundClick_inGrid[OF b'(2) assms(3)])
  have "handleCellClick s row col =
      Inr (s\<lparr>moves := moves s + 1, lastClick := Some (row, col), board := b',
             hasWon := allCellsOff b'\<rparr>)"
    using assms(1) by (simp add: handleCellClick_def b'(1) snd andThen_def)
  with b'(1) allCellsOff_iff[OF b'(2)] show ?thesis by blast
qed

theorem click_in_bounds_witness:
  "\<not> hasWon loudSession \<and> wf_board (boardSize loudSession) (board loudSession) \<and>
   inGrid (boardSize loudSession) 1 0 \<and>
   (\<exists>b'. toggleCellAndNeighbors 1 0 (board loudSession) (boardSize loudSession) = Inr b' \<and>
      handleCellClick loudSession 1 0 =
        Inr (loudSession\<lparr>moves := moves loudSession + 1, lastClick := Some (1, 0), board := b',
               hasWon := allCellsOff b'\<rparr>))"
proof -
  have h: "\<not> hasWon loudSession" "wf_board (boardSize loudSession) (board loudSession)"
    "inGrid (boardSize loudSession) 1 0"
    by (simp_all add: loudSession_def quietSession_def demoBoard_def wf_board_def inGrid_def)
  from click_in_bounds[OF h] h show ?thesis by blast
qed

text \<open>
  Claim C8. In a game that is won, a click at any coordinate leaves the state as it is.
\<close>

theorem click_when_won:
  assumes "hasWon s"
  shows "handleCellClick s row col = Inr s"
  using assms by (simp add: handleCellClick_def)

theorem click_when_won_witness:
  "hasWon wonSession \<and> handleCellClick wonSession 1 0 = Inr wonSession \<and>
   handleCellClick wonSession (- 4) 9 = Inr wonSession"
proof -
  have h: "hasWon wonSession" by (simp add: wonSession_def)
  from click_when_won[OF h] h show ?thesis by simp
qed

text \<open>
  Claim C9, as stated, fails. The handler has no bounds check. In a game that is not won
  and has the sound switched off, the click at \<open>(-1, 0)\<close>, outside the grid of
  size 3, flips the cell \<open>(0, 0)\<close> and counts as a move.
\<close>

theorem outside_click_is_a_move:
  "\<not> hasWon quietSession \<and> wf_board (boardSize quietSession) (board quietSession) \<and>
   \<not> inGrid (boardSize quietSession) (- 1) 0 \<and>
   handleCellClick quietSession (- 1) 0 =
     Inr (quietSession\<lparr>moves := 1, lastClick := Some (- 1, 0),
            board := [[\<lparr>isOn = True\<rparr>, \<lparr>isOn = True\<rparr>, \<lparr>isOn = False\<rparr>],
                      [\<lparr>isOn = True\<rparr>, \<lparr>isOn = True\<rparr>, \<lparr>isOn = False\<rparr>],
                      [\<lparr>isOn = False\<rparr>, \<lparr>isOn = False\<rparr>, \<lparr>isOn = True\<rparr>]]\<rparr>) \<and>
   handleCellClick quietSession (- 1) 0 \<noteq> Inr quietSession"
  by (simp add: quietSession_def demoBoard_def wf_board_def inGrid_def handleCellClick_def
      toggleCellAndNeighbors_def toggle_def andThen_def playSoundClick_def allCellsOff_def)

text \<open>
  Claim C9, amended. In a game that is not won, with no audio context or with the sound
  switched off, a click outside the grid is handled as any other click: the board becomes
  the result of the move primitive at that target, which changes the cells of the plus
  pattern that lie in the grid, the move counter goes up by one, and the won flag says
  whether the new board is all off. The state is never the old one.
\<close>

theorem click_out_of_bounds:
  assumes "\<not> hasWon s" and "wf_board (boardSize s) (board s)"
    and "\<not> inGrid (boardSize s) row col"
    and "\<not> audioCtx s \<or> \<not> soundEnabled s"
  shows "\<exists>b'. toggleCellAndNeighbors row col (board s) (boardSize s) = Inr b' \<and>
           handleCellClick s row col =
             Inr (s\<lparr>moves := moves s + 1, lastClick := Some (row, col), board := b',
                    hasWon := allCellsOff b'\<rparr>) \<and>
           handleCellClick s row col \<noteq> Inr s \<and>
           (\<forall>i j. inGrid (boardSize s) i j \<longrightarrow>
              (cellOn b' i j \<noteq> cellOn (board s) i j) = inPlus row col i j)"
proof -
  from toggleCellAndNeighbors_wf[OF assms(2), of row col] obtain b' where
    b': "toggleCellAndNeighbors row col (board s) (boardSize s) = Inr b'"
      "\<forall>i j. inGrid (boardSize s) i j \<longrightarrow>
         cellOn b' i j = (cellOn (board s) i j \<noteq> inPlus row col i j)" by blast
  have snd: "playSoundClick (audioCtx s) (soundEnabled s) (interactiveSound s)
      b' row col (boardSize s) = Inr ()"
    using assms(4) by (auto simp: playSoundClick_def)
  have run: "handleCellClick s row col =
      Inr (s\<lparr>moves := moves s + 1, lastClick := Some (row, col), board := b',
             hasWon := allCellsOff b'\<rparr>)"
    using assms(1) by (simp add: handleCellClick_def b'(1) snd andThen_def)
  have "moves (s\<lparr>moves := moves s + 1, lastClick := Some (row, col), board := b',
             hasWon := allCellsOff b'\<rparr>) \<noteq> moves s" by simp
  then have "s\<lparr>moves := moves s + 1, lastClick := Some (row, col), board := b',
             hasWon := allCellsOff b'\<rparr> \<noteq> s" by metis
  with run have "handleCellClick s row col \<noteq> Inr s" by simp
  moreover have "\<forall>i j. inGrid (boardSize s) i j \<longrightarrow>
              (cellOn b' i j \<noteq> cellOn (board s) i j) = inPlus row col i j"
    using b'(2) by auto
  ultimately show ?thesis using b'(1) run by blast
qed

theorem click_out_of_bounds_witness:
  "\<not> hasWon quietSession \<and> wf_board (boardSize quietSession) (board quietSession) \<and>
   \<not> inGrid (boardSize quietSession) 0 3 \<and> \<not> soundEnabled quietSession \<and>
   (\<exists>b'. toggleCellAndNeighbors 0 3 (board quietSession) (boardSize quietSession) = Inr b' \<and>
      handleCellClick quietSession 0 3 =
        Inr (quietSession\<lparr>moves := moves quietSession + 1, lastClick := Some (0, 3),
               board := b', hasWon := allCellsOff b'\<rparr>) \<and>
      handleCellClick quietSession 0 3 \<noteq> Inr quietSession \<and>
      cellOn b' 0 2 \<noteq> cellOn (board quietSession) 0 2)"
proof -
  have h: "\<not> hasWon quietSession" "wf_board (boardSize quietSession) (board quietSession)"
    "\<not> inGrid (boardSize quietSession) 0 3"
    "\<not> audioCtx quietSession \<or> \<not> soundEnabled quietSession"
    by (simp_all add: quietSession_def demoBoard_def wf_board_def inGrid_def)
  have g: "inGrid (boardSize quietSession) 0 2" "inPlus 0 3 0 2"
    by (simp_all add: quietSession_def inGrid_def inPlus_def)
  from click_out_of_bounds[OF h] obtain b' where
    b': "toggleCellAndNeighbors 0 3 (board quietSession) (boardSize quietSession) = Inr b'"
      "handleCellClick quietSession 0 3 =
        Inr (quietSession\<lparr>moves := moves quietSession + 1, lastClick := Some (0, 3),
               board := b', hasWon := allCellsOff b'\<rparr>)"
      "handleCellClick quietSession 0 3 \<noteq> Inr quietSession"
      "\<forall>i j. inGrid (boardSize quietSession) i j \<longrightarrow>
         (cellOn b' i j \<noteq> cellOn (board quietSession) i j) = inPlus 0 3 i j"
    by blast
  from b'(4) g have "cellOn b' 0 2 \<noteq> cellOn (board quietSession) 0 2" by blast
  moreover have "\<not> soundEnabled quietSession" by (simp add: quietSession_def)
  ultimately show ?thesis using h(1,2,3) b'(1,2,3) by blast
qed

text \<open>
  With the interactive sound running and \<open>n \<ge> 2\<close>, a click outside the grid makes
  \<open>getActiveNeighbors\<close> read a cell that does not exist: the handler throws before any
  setter has run.
\<close>

lemma interactive_click_outside_throws:
  assumes "\<not> hasWon s" and "wf_board (boardSize s) (board s)"
    and "\<not> inGrid (boardSize s) row col" and "2 \<le> boardSize s"
    and "audioCtx s" and "soundEnabled s" and "interactiveSound s"
  shows "handleCellClick s row col = Inl TypeError"
proof -
  from toggleCellAndNeighbors_wf[OF assms(2), of row col] obtain b' where
    b': "toggleCellAndNeighbors row col (board s) (boardSize s) = Inr b'"
      "wf_board (boardSize s) b'" by blast
  from getActiveNeighbors_outside[OF b'(2) assms(3,4)] show ?thesis
    using assms(1,5,6,7) by (simp add: handleCellClick_def b'(1) andThen_def playSoundClick_def)
qed

end
